theory Spec2Isabelle
  imports
    Main
    "HOL-Library.Word"
    "HOL-Library.Char_ord"
    "HOL-Library.List_Lexorder"
begin

section \<open>Text helpers used by the resolver\<close>

text \<open>
  \<open>std::string\<close> is \<open>string\<close>; \<open>operator<\<close> on it compares bytes as unsigned values,
  lexicographically, a proper prefix being smaller. That is the order of
  \<open>Char_ord\<close> and \<open>List_Lexorder\<close>.
\<close>

definition digit :: "nat \<Rightarrow> char" where
  "digit d = ''0123456789'' ! d"

text \<open>\<open>absl::StrFormat("%d", n)\<close> for an unsigned value.\<close>

function decimal :: "nat \<Rightarrow> string" where
  "decimal n = (if n < 10 then [digit n] else decimal (n div 10) @ [digit (n mod 10)])"
  by pat_completeness auto
termination
  by (relation "measure id") auto

declare decimal.simps [simp del]

text \<open>\<open>absl::StrFormat("%d", n)\<close> for a signed value.\<close>

definition signed_decimal :: "int \<Rightarrow> string" where
  "signed_decimal i = (if i < 0 then CHR ''-'' # decimal (nat (- i)) else decimal (nat i))"

text \<open>
  \<open>std::string::c_str()\<close> read as a C string: the bytes before the first NUL byte.
\<close>

definition c_str :: "string \<Rightarrow> string" where
  "c_str s = takeWhile (\<lambda>c. c \<noteq> CHR 0x00) s"

text \<open>\<open>absl::StrJoin(parts, sep)\<close>.\<close>

fun StrJoin :: "string list \<Rightarrow> string \<Rightarrow> string" where
  "StrJoin [] sep = []"
| "StrJoin [x] sep = x"
| "StrJoin (x # y # ys) sep = x @ sep @ StrJoin (y # ys) sep"

section \<open>Ordered containers\<close>


definition map_ok :: "('k::linorder \<times> 'v) list \<Rightarrow> bool" where
  "map_ok m = sorted_wrt (<) (map fst m)"

text \<open>\<open>std::set::emplace\<close>: nothing happens when the element is there already.\<close>

fun set_emplace :: "'k::linorder \<Rightarrow> 'k list \<Rightarrow> 'k list" where
  "set_emplace k [] = [k]"
| "set_emplace k (x # xs) =
     (if k < x then k # x # xs else if k = x then x # xs else x # set_emplace k xs)"

text \<open>\<open>std::map::find\<close>: \<open>None\<close> stands for \<open>end()\<close>.\<close>

fun map_find :: "('k \<times> 'v) list \<Rightarrow> 'k \<Rightarrow> 'v option" where
  "map_find [] k = None"
| "map_find ((k', v) # m) k = (if k = k' then Some v else map_find m k)"

text \<open>\<open>m[k] = v\<close>: the entry is created at its place in the order, or overwritten.\<close>

fun map_assign :: "'k::linorder \<Rightarrow> 'v \<Rightarrow> ('k \<times> 'v) list \<Rightarrow> ('k \<times> 'v) list" where
  "map_assign k v [] = [(k, v)]"
| "map_assign k v ((k', v') # m) =
     (if k < k' then (k, v) # (k', v') # m
      else if k = k' then (k, v) # m
      else (k', v') # map_assign k v m)"

text \<open>\<open>std::map::erase\<close> of the entry with key \<open>k\<close>.\<close>

fun map_erase :: "'k \<Rightarrow> ('k \<times> 'v) list \<Rightarrow> ('k \<times> 'v) list" where
  "map_erase k [] = []"
| "map_erase k ((k', v) # m) = (if k = k' then m else (k', v) # map_erase k m)"

text \<open>\<open>std::map::begin\<close>: the entry with the smallest key, \<open>None\<close> for \<open>end()\<close>.\<close>

fun map_begin :: "('k \<times> 'v) list \<Rightarrow> ('k \<times> 'v) option" where
  "map_begin [] = None"
| "map_begin (kv # m) = Some kv"

text \<open>
  The value that \<open>m[k]\<close> refers to: the stored one, or the value-initialised \<open>d\<close> that
  \<open>operator[]\<close> inserts for a missing key.
\<close>

definition map_subscript :: "('k \<times> 'v) list \<Rightarrow> 'k \<Rightarrow> 'v \<Rightarrow> 'v" where
  "map_subscript m k d = (case map_find m k of None \<Rightarrow> d | Some v \<Rightarrow> v)"

section \<open>Route data (\<open>XdsApi::RdsUpdate\<close>)\<close>

text \<open>
  The declarations of \<open>XdsApi::RdsUpdate\<close> are in \<open>xds_api.h\<close>; the fields below are the
  ones \<open>xds_resolver.cc\<close> reads. A regular expression is kept as its \<open>pattern()\<close>.
  An enumeration can hold a value that none of the \<open>case\<close> labels of the resolver
  names: \<open>HEADER_OTHER\<close> and \<open>PATH_OTHER\<close> stand for those values.
\<close>

record ClusterWeight =
  name :: string
  weight :: "32 word"

datatype PathMatcherType = PATH_PREFIX | PATH_PATH | PATH_REGEX | PATH_OTHER nat

record PathMatcher =
  path_type :: PathMatcherType
  path_string_matcher :: string
  path_regex_matcher :: string

datatype HeaderMatcherType =
  EXACT | REGEX | RANGE | PRESENT | PREFIX | SUFFIX | HEADER_OTHER nat

record HeaderMatcher =
  header_name :: string
  header_type :: HeaderMatcherType
  range_start :: "64 word"
  range_end :: "64 word"
  string_matcher :: string
  regex_match :: string
  present_match :: bool
  invert_match :: bool

record Matchers =
  path_matcher :: PathMatcher
  header_matchers :: "HeaderMatcher list"
  fraction_per_million :: "32 word option"

record RdsRoute =
  matchers :: Matchers
  cluster_name :: string
  weighted_clusters :: "ClusterWeight list"

type_synonym RdsUpdate = "RdsRoute list"

section \<open>Action name allocator\<close>

record WeightedClustersKeys =
  cluster_names_key :: string
  cluster_weights_key :: string

definition GetWeightedClustersKey :: "ClusterWeight list \<Rightarrow> WeightedClustersKeys" where
  "GetWeightedClustersKey wcs =
     (let cluster_names = fold (\<lambda>cw s. set_emplace (name cw) s) wcs [];
          cluster_weights =
            fold (\<lambda>cw s. set_emplace (name cw @ ''_'' @ decimal (unat (weight cw))) s) wcs []
      in \<lparr>cluster_names_key = StrJoin cluster_names ''_'',
          cluster_weights_key = StrJoin cluster_weights ''_''\<rparr>)"

record ClusterNamesInfo =
  next_index :: "64 word"
  cluster_weights_map :: "(string \<times> 64 word) list"

type_synonym WeightedClusterIndexMap = "(string \<times> ClusterNamesInfo) list"

text \<open>A value-initialised \<open>ClusterNamesInfo\<close>.\<close>

definition ClusterNamesInfo_init :: ClusterNamesInfo where
  "ClusterNamesInfo_init = \<lparr>next_index = 0, cluster_weights_map = []\<rparr>"

text \<open>
  \<open>WeightedClustersActionName\<close>: \<open>None\<close> is a failed \<open>GPR_ASSERT\<close>, which aborts the
  process.
\<close>

definition WeightedClustersActionName ::
  "WeightedClusterIndexMap \<Rightarrow> ClusterWeight list \<Rightarrow> string option" where
  "WeightedClustersActionName weighted_cluster_index_map wcs =
     (let keys = GetWeightedClustersKey wcs in
      case map_find weighted_cluster_index_map (cluster_names_key keys) of
        None \<Rightarrow> None
      | Some info \<Rightarrow>
          (case map_find (cluster_weights_map info) (cluster_weights_key keys) of
             None \<Rightarrow> None
           | Some idx \<Rightarrow> Some (cluster_names_key keys @ ''_'' @ decimal (unat idx))))"

text \<open>
  The first loop of \<open>UpdateWeightedClusterIndexMap\<close>: the map from
  \<open>cluster_weights_key\<close> to \<open>cluster_names_key\<close> of the weighted routes, the first route
  with a given \<open>cluster_weights_key\<close> deciding the entry.
\<close>

definition add_action :: "RdsRoute \<Rightarrow> (string \<times> string) list \<Rightarrow> (string \<times> string) list" where
  "add_action route acts =
     (if weighted_clusters route \<noteq> [] then
        (let keys = GetWeightedClustersKey (weighted_clusters route) in
         case map_find acts (cluster_weights_key keys) of
           None \<Rightarrow> map_assign (cluster_weights_key keys) (cluster_names_key keys) acts
         | Some _ \<Rightarrow> acts)
      else acts)"

definition actions_to_process :: "RdsUpdate \<Rightarrow> (string \<times> string) list" where
  "actions_to_process routes = fold add_action routes []"

text \<open>
  The state of the two passes: the table of the previous update (entries are taken out
  of it as they are used), the table under construction, and the actions that are not
  settled yet.
\<close>

record alloc_state =
  old_map :: WeightedClusterIndexMap
  new_map :: WeightedClusterIndexMap
  pending :: "(string \<times> string) list"

text \<open>One iteration of the first pass, for the action \<open>(cluster_weights_key, cluster_names_key)\<close>.\<close>

definition exact_match_step :: "string \<times> string \<Rightarrow> alloc_state \<Rightarrow> alloc_state" where
  "exact_match_step action st =
     (let cluster_names_key = snd action; cluster_weights_key = fst action in
      case map_find (old_map st) cluster_names_key of
        None \<Rightarrow> st
      | Some old_info \<Rightarrow>
          (let new_info =
                 (map_subscript (new_map st) cluster_names_key ClusterNamesInfo_init)
                   \<lparr>next_index := next_index old_info\<rparr>
           in case map_find (cluster_weights_map old_info) cluster_weights_key of
                Some idx \<Rightarrow>
                  \<lparr>old_map = map_assign cluster_names_key
                     (old_info\<lparr>cluster_weights_map :=
                        map_erase cluster_weights_key (cluster_weights_map old_info)\<rparr>)
                     (old_map st),
                   new_map = map_assign cluster_names_key
                     (new_info\<lparr>cluster_weights_map :=
                        map_assign cluster_weights_key idx (cluster_weights_map new_info)\<rparr>)
                     (new_map st),
                   pending = map_erase cluster_weights_key (pending st)\<rparr>
              | None \<Rightarrow> st\<lparr>new_map := map_assign cluster_names_key new_info (new_map st)\<rparr>))"

text \<open>One iteration of the second pass.\<close>

definition reuse_step :: "string \<times> string \<Rightarrow> alloc_state \<Rightarrow> alloc_state" where
  "reuse_step action st =
     (let cluster_names_key = snd action; cluster_weights_key = fst action;
          new_info = map_subscript (new_map st) cluster_names_key ClusterNamesInfo_init;
          old_info = map_subscript (old_map st) cluster_names_key ClusterNamesInfo_init
      in case map_begin (cluster_weights_map old_info) of
           Some old_entry \<Rightarrow>
             st\<lparr>old_map := map_assign cluster_names_key
                  (old_info\<lparr>cluster_weights_map :=
                     map_erase (fst old_entry) (cluster_weights_map old_info)\<rparr>)
                  (old_map st),
                new_map := map_assign cluster_names_key
                  (new_info\<lparr>cluster_weights_map :=
                     map_assign cluster_weights_key (snd old_entry) (cluster_weights_map new_info)\<rparr>)
                  (new_map st)\<rparr>
         | None \<Rightarrow>
             st\<lparr>old_map := map_assign cluster_names_key old_info (old_map st),
                new_map := map_assign cluster_names_key
                  (new_info\<lparr>cluster_weights_map :=
                     map_assign cluster_weights_key (next_index new_info)
                       (cluster_weights_map new_info),
                   next_index := next_index new_info + 1\<rparr>)
                  (new_map st)\<rparr>)"

definition exact_match_pass :: "alloc_state \<Rightarrow> alloc_state" where
  "exact_match_pass st = fold exact_match_step (pending st) st"

definition reuse_pass :: "alloc_state \<Rightarrow> alloc_state" where
  "reuse_pass st = fold reuse_step (pending st) st"

definition UpdateWeightedClusterIndexMap ::
  "WeightedClusterIndexMap \<Rightarrow> RdsUpdate \<Rightarrow> WeightedClusterIndexMap" where
  "UpdateWeightedClusterIndexMap weighted_cluster_index_map rds_update =
     new_map (reuse_pass (exact_match_pass
       \<lparr>old_map = weighted_cluster_index_map, new_map = [],
        pending = actions_to_process rds_update\<rparr>))"

section \<open>Routing-config compiler\<close>

definition CreateServiceConfigActionCluster :: "string \<Rightarrow> string" where
  \<open>CreateServiceConfigActionCluster cluster =
     ''      "cds:'' @ cluster @ ''":{\<newline>'' @
     ''        "childPolicy":[ {\<newline>'' @
     ''          "cds_experimental":{\<newline>'' @
     ''            "cluster": "'' @ cluster @ ''"\<newline>'' @
     ''          }\<newline>'' @
     ''        } ]\<newline>'' @
     ''       }''\<close>

text \<open>
  The text of one header matcher: the \<open>switch\<close> on its type. The \<open>default\<close> branch
  leaves \<open>header_matcher\<close> empty.
\<close>

definition header_matcher_text :: "HeaderMatcher \<Rightarrow> string" where
  \<open>header_matcher_text header =
     (case header_type header of
        EXACT \<Rightarrow> ''             "exact_match": "'' @ string_matcher header @ ''"''
      | REGEX \<Rightarrow> ''             "regex_match": "'' @ regex_match header @ ''"''
      | RANGE \<Rightarrow>
          ''             "range_match":{\<newline>'' @
          ''              "start":'' @ signed_decimal (sint (range_start header)) @ '',\<newline>'' @
          ''              "end":'' @ signed_decimal (sint (range_end header)) @ ''\<newline>'' @
          ''             }''
      | PRESENT \<Rightarrow>
          ''             "present_match": '' @
          (if present_match header then ''true'' else ''false'')
      | PREFIX \<Rightarrow> ''             "prefix_match": "'' @ string_matcher header @ ''"''
      | SUFFIX \<Rightarrow> ''             "suffix_match": "'' @ string_matcher header @ ''"''
      | HEADER_OTHER _ \<Rightarrow> [])\<close>

text \<open>One element of \<open>headers\<close>: the body of the loop over the header matchers.\<close>

definition header_text :: "HeaderMatcher \<Rightarrow> string" where
  \<open>header_text header =
     StrJoin
       ([''           { \<newline>'' @
         ''             "name": "'' @ header_name header @ ''",\<newline>'',
         header_matcher_text header] @
        (if invert_match header
         then ['',\<newline>'' @ ''             "invert_match": true''] else []) @
        [''\<newline>'' @ ''           }''])
       []\<close>

text \<open>The \<open>switch\<close> on the path matcher's type; it has no \<open>default\<close> branch.\<close>

definition path_match_text :: "PathMatcher \<Rightarrow> string" where
  \<open>path_match_text pm =
     (case path_type pm of
        PATH_PREFIX \<Rightarrow> ''"prefix": "'' @ path_string_matcher pm @ ''",\<newline>''
      | PATH_PATH \<Rightarrow> ''"path": "'' @ path_string_matcher pm @ ''",\<newline>''
      | PATH_REGEX \<Rightarrow> ''"regex": "'' @ path_regex_matcher pm @ ''",\<newline>''
      | PATH_OTHER _ \<Rightarrow> [])\<close>

definition CreateServiceConfigRoute :: "string \<Rightarrow> RdsRoute \<Rightarrow> string" where
  \<open>CreateServiceConfigRoute action_name route =
     (let headers = map header_text (header_matchers (matchers route));
          headers_service_config =
            (if headers \<noteq> []
             then [''"headers":[\<newline>'', StrJoin headers '','', ''           ],\<newline>'']
             else []);
          path_match_str = path_match_text (path_matcher (matchers route))
      in ''      { \<newline>'' @
         ''           '' @ path_match_str @
         ''           '' @ StrJoin headers_service_config [] @
         ''           '' @
         (case fraction_per_million (matchers route) of
            Some fraction \<Rightarrow> ''"match_fraction":'' @ decimal (unat fraction) @ '',\<newline>''
          | None \<Rightarrow> []) @
         ''           "action": "'' @ action_name @ ''"\<newline>'' @
         ''      }'')\<close>

definition weighted_target_text :: "ClusterWeight \<Rightarrow> string" where
  \<open>weighted_target_text cluster_weight =
     ''              "'' @ name cluster_weight @ ''":{\<newline>'' @
     ''                "weight":'' @ decimal (unat (weight cluster_weight)) @ '',\<newline>'' @
     ''                "childPolicy":[ {\<newline>'' @
     ''                  "cds_experimental":{\<newline>'' @
     ''                    "cluster": "'' @ name cluster_weight @ ''"\<newline>'' @
     ''                  }\<newline>'' @
     ''                } ]\<newline>'' @
     ''               }''\<close>

definition CreateServiceConfigActionWeightedCluster ::
  "string \<Rightarrow> ClusterWeight list \<Rightarrow> string" where
  \<open>CreateServiceConfigActionWeightedCluster action_name clusters =
     StrJoin
       [''      "weighted:'' @ action_name @ ''":{\<newline>'' @
        ''        "childPolicy":[ {\<newline>'' @
        ''          "weighted_target_experimental":{\<newline>'' @
        ''            "targets":{\<newline>'',
        StrJoin (map weighted_target_text clusters) '',\<newline>'',
        ''            }\<newline>'' @
        ''          }\<newline>'' @
        ''        } ]\<newline>'' @
        ''       }'']
       []\<close>

text \<open>The three locals that the loop of \<open>CreateServiceConfig\<close> fills.\<close>

record compile_state =
  actions_vector :: "string list"
  route_table :: "string list"
  actions_set :: "string list"

text \<open>
  The name a route's action goes by: the cluster name, or the allocator's name.
  \<open>None\<close> is the failed \<open>GPR_ASSERT\<close> of \<open>WeightedClustersActionName\<close>.
\<close>

definition route_action_name :: "WeightedClusterIndexMap \<Rightarrow> RdsRoute \<Rightarrow> string option" where
  "route_action_name weighted_cluster_index_map route =
     (if weighted_clusters route = [] then Some (cluster_name route)
      else WeightedClustersActionName weighted_cluster_index_map (weighted_clusters route))"

text \<open>The key under which a route refers to its action.\<close>

definition route_action_key :: "RdsRoute \<Rightarrow> string \<Rightarrow> string" where
  "route_action_key route action_name =
     (if weighted_clusters route = [] then ''cds'' else ''weighted'') @ '':'' @ action_name"

text \<open>One iteration of the loop over the routes.\<close>

definition compile_route ::
  "WeightedClusterIndexMap \<Rightarrow> RdsRoute \<Rightarrow> compile_state \<Rightarrow> compile_state option" where
  "compile_route weighted_cluster_index_map route cs =
     (case route_action_name weighted_cluster_index_map route of
        None \<Rightarrow> None
      | Some action_name \<Rightarrow>
          (let cs1 =
                 (if action_name \<notin> set (actions_set cs)
                  then cs\<lparr>actions_set := set_emplace action_name (actions_set cs),
                          actions_vector := actions_vector cs @
                            [if weighted_clusters route = []
                             then CreateServiceConfigActionCluster action_name
                             else CreateServiceConfigActionWeightedCluster action_name
                                    (weighted_clusters route)]\<rparr>
                  else cs)
           in Some (cs1\<lparr>route_table := route_table cs1 @
                [CreateServiceConfigRoute (route_action_key route action_name) route]\<rparr>)))"

fun compile_routes ::
  "WeightedClusterIndexMap \<Rightarrow> RdsRoute list \<Rightarrow> compile_state \<Rightarrow> compile_state option" where
  "compile_routes weighted_cluster_index_map [] cs = Some cs"
| "compile_routes weighted_cluster_index_map (route # routes) cs =
     (case compile_route weighted_cluster_index_map route cs of
        None \<Rightarrow> None
      | Some cs' \<Rightarrow> compile_routes weighted_cluster_index_map routes cs')"

definition service_config_json :: "compile_state \<Rightarrow> string" where
  \<open>service_config_json cs =
     StrJoin
       [''{\<newline>'' @
        ''  "loadBalancingConfig":[\<newline>'' @
        ''    { "xds_routing_experimental":{\<newline>'' @
        ''      "actions":{\<newline>'',
        StrJoin (actions_vector cs) '',\<newline>'',
        ''    },\<newline>'' @
        ''      "routes":[\<newline>'',
        StrJoin (route_table cs) '',\<newline>'',
        ''    ]\<newline>'' @
        ''    } }\<newline>'' @
        ''  ]\<newline>'' @
        ''}'']
       []\<close>

type_synonym grpc_error = string

record ServiceConfig =
  json_string :: string

text \<open>
  Modelled from the spec: \<open>ServiceConfig::Create\<close> is defined in \<open>service_config.cc\<close>,
  outside this file. The underlying document builder either rejects the assembled
  text with a document-construction error, and no document is returned, or it returns
  the document of that text. Which texts it rejects is the parameter \<open>rejects\<close>.
\<close>

definition ServiceConfig_Create ::
  "(string \<Rightarrow> grpc_error option) \<Rightarrow> string \<Rightarrow> ServiceConfig option \<times> grpc_error option" where
  "ServiceConfig_Create rejects json =
     (case rejects json of
        None \<Rightarrow> (Some \<lparr>json_string = json\<rparr>, None)
      | Some error \<Rightarrow> (None, Some error))"

text \<open>
  \<open>CreateServiceConfig\<close> returns the error and sets \<open>*service_config\<close>; it has
  replaced \<open>weighted_cluster_index_map_\<close> before anything else. The builder is given
  \<open>json.c_str()\<close>. \<open>None\<close> is the abort of a failed \<open>GPR_ASSERT\<close>.
\<close>

definition CreateServiceConfig ::
  "(string \<Rightarrow> grpc_error option) \<Rightarrow> WeightedClusterIndexMap \<Rightarrow> RdsUpdate \<Rightarrow>
   (WeightedClusterIndexMap \<times> grpc_error option \<times> ServiceConfig option) option" where
  "CreateServiceConfig rejects weighted_cluster_index_map rds_update =
     (let table = UpdateWeightedClusterIndexMap weighted_cluster_index_map rds_update in
      case compile_routes table rds_update
             \<lparr>actions_vector = [], route_table = [], actions_set = []\<rparr> of
        None \<Rightarrow> None
      | Some cs \<Rightarrow>
          (let json = service_config_json cs;
               created = ServiceConfig_Create rejects (c_str json)
           in Some (table, snd created, fst created)))"

section \<open>Resolver and listener watcher\<close>

type_synonym grpc_arg = "string \<times> string"

text \<open>
  Modelled from the spec: \<open>grpc_channel_args_copy\<close> and
  \<open>grpc_channel_args_copy_and_add\<close> are defined in \<open>channel_args.cc\<close>, outside this
  file. Channel args are an opaque carrier; merging keeps the base args and adds the
  contributed ones after them.
\<close>

definition grpc_channel_args_copy :: "grpc_arg list \<Rightarrow> grpc_arg list" where
  "grpc_channel_args_copy src = src"

definition grpc_channel_args_copy_and_add :: "grpc_arg list \<Rightarrow> grpc_arg list \<Rightarrow> grpc_arg list" where
  "grpc_channel_args_copy_and_add src to_add = src @ to_add"

text \<open>\<open>Resolver::Result\<close>, the fields that the watcher fills.\<close>

record Result =
  service_config :: "ServiceConfig option"
  service_config_error :: "grpc_error option"
  args :: "grpc_arg list"

definition Result_init :: Result where
  "Result_init = \<lparr>service_config = None, service_config_error = None, args = []\<rparr>"

text \<open>
  The resolver. Of the discovery client and of the config selector only the channel arg
  that \<open>MakeChannelArg()\<close> returns is kept; \<open>xds_client = None\<close> is the null pointer.
  The members are named as in the class, without the trailing underscore
  (\<open>channel_args\<close> is \<open>args_\<close>).
  \<open>result_handler\<close> is the sink: the results returned so far, latest last.
\<close>

record XdsResolver =
  server_name :: string
  channel_args :: "grpc_arg list"
  xds_client :: "grpc_arg option"
  config_selector :: grpc_arg
  weighted_cluster_index_map :: WeightedClusterIndexMap
  result_handler :: "Result list"

definition ReturnResult :: "Result \<Rightarrow> XdsResolver \<Rightarrow> XdsResolver" where
  "ReturnResult result resolver = resolver\<lparr>result_handler := result_handler resolver @ [result]\<rparr>"

definition ShutdownLocked :: "XdsResolver \<Rightarrow> XdsResolver" where
  "ShutdownLocked resolver = resolver\<lparr>xds_client := None\<rparr>"

definition OnError :: "grpc_error \<Rightarrow> XdsResolver \<Rightarrow> XdsResolver" where
  "OnError error resolver =
     (case xds_client resolver of
        None \<Rightarrow> resolver
      | Some xds_client_arg \<Rightarrow>
          ReturnResult
            (Result_init
               \<lparr>args := grpc_channel_args_copy_and_add (channel_args resolver) [xds_client_arg],
                service_config_error := Some error\<rparr>)
            resolver)"

text \<open>\<open>None\<close> is the abort of a failed \<open>GPR_ASSERT\<close>.\<close>

definition OnListenerChanged ::
  "(string \<Rightarrow> grpc_error option) \<Rightarrow> RdsUpdate \<Rightarrow> XdsResolver \<Rightarrow> XdsResolver option" where
  "OnListenerChanged rejects rds_update resolver =
     (case xds_client resolver of
        None \<Rightarrow> Some resolver
      | Some xds_client_arg \<Rightarrow>
          (case CreateServiceConfig rejects (weighted_cluster_index_map resolver) rds_update of
             None \<Rightarrow> None
           | Some (table, error, config) \<Rightarrow>
               (let resolver1 = resolver\<lparr>weighted_cluster_index_map := table\<rparr> in
                case error of
                  Some e \<Rightarrow> Some (OnError e resolver1)
                | None \<Rightarrow>
                    Some (ReturnResult
                      (Result_init
                         \<lparr>service_config := config,
                          args := grpc_channel_args_copy_and_add (channel_args resolver1)
                                    [xds_client_arg, config_selector resolver1]\<rparr>)
                      resolver1))))"

definition OnResourceDoesNotExist ::
  "(string \<Rightarrow> grpc_error option) \<Rightarrow> XdsResolver \<Rightarrow> XdsResolver option" where
  \<open>OnResourceDoesNotExist rejects resolver =
     (case xds_client resolver of
        None \<Rightarrow> Some resolver
      | Some _ \<Rightarrow>
          (let created = ServiceConfig_Create rejects ''{}'' in
           case fst created of
             None \<Rightarrow> None
           | Some config \<Rightarrow>
               Some (ReturnResult
                 (Result_init
                    \<lparr>service_config := Some config,
                     service_config_error := snd created,
                     args := grpc_channel_args_copy (channel_args resolver)\<rparr>)
                 resolver)))\<close>

text \<open>
  The notifications of the discovery client, and the resolver running a queue of them
  one after the other in its work serializer.
\<close>

datatype notification =
  ListenerChanged RdsUpdate | Error grpc_error | ResourceDoesNotExist

fun notify ::
  "(string \<Rightarrow> grpc_error option) \<Rightarrow> notification \<Rightarrow> XdsResolver \<Rightarrow> XdsResolver option" where
  "notify rejects (ListenerChanged rds_update) resolver =
     OnListenerChanged rejects rds_update resolver"
| "notify rejects (Error error) resolver = Some (OnError error resolver)"
| "notify rejects ResourceDoesNotExist resolver = OnResourceDoesNotExist rejects resolver"

fun notify_all ::
  "(string \<Rightarrow> grpc_error option) \<Rightarrow> notification list \<Rightarrow> XdsResolver \<Rightarrow> XdsResolver option" where
  "notify_all rejects [] resolver = Some resolver"
| "notify_all rejects (n # ns) resolver =
     (case notify rejects n resolver of
        None \<Rightarrow> None
      | Some resolver' \<Rightarrow> notify_all rejects ns resolver')"

section \<open>Well-formed tables and update sequences\<close>

text \<open>
  A table is well formed when it and every \<open>cluster_weights_map\<close> in it are
  \<open>std::map\<close>s. \<open>slot\<close> is the index that a table holds for a
  \<open>cluster_weights_key\<close> in the bucket of a \<open>cluster_names_key\<close>, \<open>bucket_next\<close> the
  \<open>next_index\<close> of a bucket.
\<close>

definition table_ok :: "WeightedClusterIndexMap \<Rightarrow> bool" where
  "table_ok t = (map_ok t \<and> list_all (\<lambda>entry. map_ok (cluster_weights_map (snd entry))) t)"

definition slot :: "WeightedClusterIndexMap \<Rightarrow> string \<Rightarrow> string \<Rightarrow> 64 word option" where
  "slot t names_key weights_key =
     (case map_find t names_key of
        None \<Rightarrow> None
      | Some info \<Rightarrow> map_find (cluster_weights_map info) weights_key)"

definition bucket_next :: "WeightedClusterIndexMap \<Rightarrow> string \<Rightarrow> 64 word option" where
  "bucket_next t names_key = map_option next_index (map_find t names_key)"

text \<open>The indices of the entries of every bucket are pairwise distinct.\<close>

definition indices_distinct :: "WeightedClusterIndexMap \<Rightarrow> bool" where
  "indices_distinct t = list_all (\<lambda>entry. distinct (map snd (cluster_weights_map (snd entry)))) t"

text \<open>
  The table after a sequence of updates, and the number of actions that the updates of
  a sequence request altogether (no more indices than that are ever allocated).
\<close>

definition run_updates :: "RdsUpdate list \<Rightarrow> WeightedClusterIndexMap \<Rightarrow> WeightedClusterIndexMap" where
  "run_updates updates t =
     fold (\<lambda>rds_update t'. UpdateWeightedClusterIndexMap t' rds_update) updates t"

definition requested_total :: "RdsUpdate list \<Rightarrow> nat" where
  "requested_total updates =
     sum_list (map (\<lambda>rds_update. length (actions_to_process rds_update)) updates)"

text \<open>
  The entry that the second pass takes from the bucket of a \<open>cluster_names_key\<close> in
  the old table (the one at \<open>begin()\<close>), the \<open>next_index\<close> that a bucket has or
  starts with, and the state in which the first pass starts.
\<close>

definition leftover :: "WeightedClusterIndexMap \<Rightarrow> string \<Rightarrow> (string \<times> 64 word) option" where
  "leftover t names_key =
     map_begin (cluster_weights_map (map_subscript t names_key ClusterNamesInfo_init))"

definition next_or_zero :: "WeightedClusterIndexMap \<Rightarrow> string \<Rightarrow> 64 word" where
  "next_or_zero t names_key = next_index (map_subscript t names_key ClusterNamesInfo_init)"

definition start_state :: "WeightedClusterIndexMap \<Rightarrow> RdsUpdate \<Rightarrow> alloc_state" where
  "start_state t rds_update =
     \<lparr>old_map = t, new_map = [], pending = actions_to_process rds_update\<rparr>"

text \<open>
  What holds of a table that updates have built from the empty one, \<open>n\<close> bounding
  the indices allocated so far: the indices of a bucket are pairwise distinct and
  below its \<open>next_index\<close>, which is at most \<open>n\<close>. And what holds during the second
  pass, relative to the table \<open>t0\<close> of the previous update and to the
  \<open>cluster_names_key\<close>s that the update names.
\<close>

definition alloc_inv :: "nat \<Rightarrow> WeightedClusterIndexMap \<Rightarrow> bool" where
  "alloc_inv n t \<longleftrightarrow>
     table_ok t \<and>
     (\<forall>nk wk wk' i. slot t nk wk = Some i \<and> slot t nk wk' = Some i \<longrightarrow> wk = wk') \<and>
     (\<forall>nk wk i b. slot t nk wk = Some i \<and> bucket_next t nk = Some b \<longrightarrow> unat i < unat b) \<and>
     (\<forall>nk b. bucket_next t nk = Some b \<longrightarrow> unat b \<le> n)"

definition reuse_inv ::
  "nat \<Rightarrow> string set \<Rightarrow> WeightedClusterIndexMap \<Rightarrow> alloc_state \<Rightarrow> bool" where
  "reuse_inv m names t0 st \<longleftrightarrow>
     table_ok (old_map st) \<and> table_ok (new_map st) \<and>
     (\<forall>nk wk wk' i. slot (new_map st) nk wk = Some i \<and> slot (new_map st) nk wk' = Some i \<longrightarrow>
        wk = wk') \<and>
     (\<forall>nk wk wk' i. slot (new_map st) nk wk = Some i \<longrightarrow> slot (old_map st) nk wk' \<noteq> Some i) \<and>
     (\<forall>nk wk i b. slot (new_map st) nk wk = Some i \<and> bucket_next (new_map st) nk = Some b \<longrightarrow>
        unat i < unat b) \<and>
     (\<forall>nk wk i. slot (old_map st) nk wk = Some i \<longrightarrow> slot t0 nk wk = Some i) \<and>
     (\<forall>nk a b. bucket_next t0 nk = Some a \<and> bucket_next (new_map st) nk = Some b \<longrightarrow>
        unat a \<le> unat b) \<and>
     (\<forall>nk. bucket_next t0 nk \<noteq> None \<and> nk \<in> names \<longrightarrow> bucket_next (new_map st) nk \<noteq> None) \<and>
     (\<forall>nk b. bucket_next (new_map st) nk = Some b \<longrightarrow> unat b \<le> m)"

text \<open>
  The pair of keys of a weighted route, \<open>cluster_weights_key\<close> first, and the set of
  these pairs over the weighted routes of an update.
\<close>

definition route_keys :: "RdsRoute \<Rightarrow> string \<times> string" where
  "route_keys route =
     (cluster_weights_key (GetWeightedClustersKey (weighted_clusters route)),
      cluster_names_key (GetWeightedClustersKey (weighted_clusters route)))"

definition weighted_keys :: "RdsUpdate \<Rightarrow> (string \<times> string) set" where
  "weighted_keys rds_update =
     route_keys ` {route \<in> set rds_update. weighted_clusters route \<noteq> []}"

text \<open>
  The key pairs of the weighted routes in the order of the routes, and the condition that
  no two weighted routes of an update have the same \<open>cluster_weights_key\<close> and
  different \<open>cluster_names_key\<close>s (the two keys are joined with \<open>_\<close>, which cluster
  names may contain, so the texts can coincide).
\<close>

definition weighted_key_list :: "RdsUpdate \<Rightarrow> (string \<times> string) list" where
  "weighted_key_list rds_update =
     map route_keys (filter (\<lambda>route. weighted_clusters route \<noteq> []) rds_update)"

definition collision_free :: "RdsUpdate \<Rightarrow> bool" where
  "collision_free rds_update =
     list_all (\<lambda>p. list_all (\<lambda>q. if fst p = fst q then snd p = snd q else True)
                 (weighted_key_list rds_update))
       (weighted_key_list rds_update)"


section \<open>Example inputs\<close>

text \<open>A document builder that accepts every text.\<close>

definition accepts_all :: "string \<Rightarrow> grpc_error option" where
  "accepts_all json = None"

definition live_resolver :: XdsResolver where
  "live_resolver =
     \<lparr>server_name = ''server.example.com'',
      channel_args = [(''grpc.default_authority'', ''server.example.com'')],
      xds_client = Some (''grpc.xds_client'', ''client''),
      config_selector = (''grpc.config_selector'', ''selector''),
      weighted_cluster_index_map = [],
      result_handler = []\<rparr>"

definition prefix_matchers :: "string \<Rightarrow> Matchers" where
  "prefix_matchers p =
     \<lparr>path_matcher = \<lparr>path_type = PATH_PREFIX, path_string_matcher = p, path_regex_matcher = []\<rparr>,
      header_matchers = [], fraction_per_million = None\<rparr>"

definition cluster_route :: "string \<Rightarrow> string \<Rightarrow> RdsRoute" where
  "cluster_route p c = \<lparr>matchers = prefix_matchers p, cluster_name = c, weighted_clusters = []\<rparr>"

definition weighted_route :: "string \<Rightarrow> (string \<times> 32 word) list \<Rightarrow> RdsRoute" where
  "weighted_route p cws =
     \<lparr>matchers = prefix_matchers p, cluster_name = [],
      weighted_clusters = map (\<lambda>cw. \<lparr>name = fst cw, weight = snd cw\<rparr>) cws\<rparr>"

definition compile_init :: compile_state where
  "compile_init = \<lparr>actions_vector = [], route_table = [], actions_set = []\<rparr>"

text \<open>
  Two weighted routes whose \<open>cluster_weights_key\<close> is the same text \<open>a_1_b_2\<close> while
  their \<open>cluster_names_key\<close>s differ (\<open>a_b\<close> and \<open>a_1_b\<close>).
\<close>

definition colliding_keys_update :: RdsUpdate where
  "colliding_keys_update =
     [weighted_route ''/a'' [(''a'', 1), (''b'', 2)], weighted_route ''/b'' [(''a_1_b'', 2)]]"


text \<open>
  A route to the cluster named \<open>a_b_0\<close> and a weighted route that the allocator names
  \<open>a_b_0\<close>.
\<close>

definition colliding_names_update :: RdsUpdate where
  "colliding_names_update =
     [cluster_route ''/a'' ''a_b_0'', weighted_route ''/b'' [(''a'', 1), (''b'', 1)]]"

text \<open>Updates over the cluster set \<open>{x, y}\<close>: one that requests two actions,\<close>

definition two_actions_update :: RdsUpdate where
  "two_actions_update =
     [weighted_route ''/a'' [(''x'', 10), (''y'', 90)],
      weighted_route ''/b'' [(''x'', 20), (''y'', 80)]]"


text \<open>one without weighted routes, one with the first action only, and one with other weights.\<close>

definition single_cluster_update :: RdsUpdate where
  "single_cluster_update = [cluster_route ''/c'' ''z'']"

definition one_action_update :: RdsUpdate where
  "one_action_update = [weighted_route ''/a'' [(''x'', 10), (''y'', 90)]]"

definition other_weights_update :: RdsUpdate where
  "other_weights_update = [weighted_route ''/a'' [(''x'', 50), (''y'', 50)]]"

text \<open>A table with one bucket that holds two actions over \<open>{x, y}\<close>.\<close>

definition two_slots_table :: WeightedClusterIndexMap where
  "two_slots_table =
     [(''x_y'', \<lparr>next_index = 2,
                cluster_weights_map = [(''x_10_y_90'', 0), (''x_20_y_80'', 1)]\<rparr>)]"

text \<open>
  The table after an update with the single weighted route \<open>{a_1_b: 5}\<close>: one bucket
  \<open>a_1_b\<close> with one action.
\<close>

definition colliding_bucket_table :: WeightedClusterIndexMap where
  "colliding_bucket_table =
     [(''a_1_b'', \<lparr>next_index = 1, cluster_weights_map = [(''a_1_b_5'', 0)]\<rparr>)]"

section \<open>Facts about the ordered containers\<close>

lemma map_find_None_iff: "map_find m k = None \<longleftrightarrow> k \<notin> fst ` set m"
  by (induction m) (auto split: if_splits)

lemma map_find_mem: "map_find m k = Some v \<Longrightarrow> (k, v) \<in> set m"
  by (induction m) (auto split: if_splits)

lemma map_ok_Nil [simp]: "map_ok []"
  by (simp add: map_ok_def)

lemma map_ok_Cons: "map_ok ((k, v) # m) \<longleftrightarrow> (\<forall>kv \<in> set m. k < fst kv) \<and> map_ok m"
  by (auto simp: map_ok_def)

lemma map_ok_mem_find: "map_ok m \<Longrightarrow> (k, v) \<in> set m \<Longrightarrow> map_find m k = Some v"
  by (induction m) (force simp: map_ok_Cons)+

lemma map_find_assign:
  "map_find (map_assign k v m) k' = (if k' = k then Some v else map_find m k')"
  by (induction m) auto

lemma set_map_assign: "set (map_assign k v m) \<subseteq> insert (k, v) (set m)"
  by (induction m) (auto split: if_splits)

lemma map_ok_assign: "map_ok m \<Longrightarrow> map_ok (map_assign k v m)"
proof (induction m)
  case Nil
  then show ?case by (simp add: map_ok_def)
next
  case (Cons kv m)
  obtain k' v' where kv: "kv = (k', v')" by (cases kv)
  from Cons set_map_assign [of k v m] show ?case
    unfolding kv by (auto simp: map_ok_Cons)
qed

lemma set_map_erase: "set (map_erase k m) \<subseteq> set m"
  by (induction m) (auto split: if_splits)

lemma map_ok_erase: "map_ok m \<Longrightarrow> map_ok (map_erase k m)"
proof (induction m)
  case Nil
  then show ?case by simp
next
  case (Cons kv m)
  obtain k' v' where kv: "kv = (k', v')" by (cases kv)
  from Cons set_map_erase [of k m] show ?case
    unfolding kv by (auto simp: map_ok_Cons)
qed

lemma map_find_erase:
  "map_ok m \<Longrightarrow> map_find (map_erase k m) k' = (if k' = k then None else map_find m k')"
proof (induction m)
  case Nil
  then show ?case by simp
next
  case (Cons kv m)
  obtain k0 v0 where kv: "kv = (k0, v0)" by (cases kv)
  from Cons show ?case
    unfolding kv by (force simp: map_ok_Cons map_find_None_iff)
qed

lemma map_begin_None_iff: "map_begin m = None \<longleftrightarrow> m = []"
  by (cases m) auto

lemma map_find_all_None_iff: "(\<forall>k. map_find m k = None) \<longleftrightarrow> m = []"
proof (cases m)
  case Nil
  then show ?thesis by simp
next
  case (Cons kv m')
  then have "map_find m (fst kv) = Some (snd kv)" by (cases kv) simp
  with Cons show ?thesis by (metis list.distinct(1) option.distinct(1))
qed

lemma map_begin_least:
  assumes "map_ok m" and "map_begin m = Some (k, v)"
  shows "map_find m k = Some v" and "map_find m k' \<noteq> None \<Longrightarrow> k \<le> k'"
proof -
  from assms(2) obtain m' where m: "m = (k, v) # m'" by (cases m) auto
  show "map_find m k = Some v" by (simp add: m)
  assume "map_find m k' \<noteq> None"
  then have "k' \<in> fst ` set m" by (simp add: map_find_None_iff)
  with assms(1) show "k \<le> k'" by (auto simp: m map_ok_Cons)
qed

text \<open>Two maps with the same entries are the same list.\<close>

lemma map_ext:
  "map_ok m \<Longrightarrow> map_ok m' \<Longrightarrow> (\<And>k. map_find m k = map_find m' k) \<Longrightarrow> m = m'"
proof (induction m arbitrary: m')
  case Nil
  then have "\<forall>k. map_find m' k = None" by (metis map_find.simps(1))
  then show ?case by (simp add: map_find_all_None_iff)
next
  case (Cons kv m)
  obtain k v where kv: "kv = (k, v)" by (cases kv)
  have "map_find m' k = Some v" using Cons.prems(3) [of k] by (simp add: kv)
  then obtain k' v' ms' where m': "m' = (k', v') # ms'"
    by (cases m') auto
  have "map_find (kv # m) k' = Some v'" using Cons.prems(3) [of k'] by (simp add: m')
  then have "k' \<in> fst ` set (kv # m)" by (metis map_find_None_iff option.distinct(1))
  then have le1: "k \<le> k'" using Cons.prems(1) by (auto simp: kv map_ok_Cons)
  have "k \<in> fst ` set m'" using \<open>map_find m' k = Some v\<close>
    by (metis map_find_None_iff option.distinct(1))
  then have le2: "k' \<le> k" using Cons.prems(2) by (auto simp: m' map_ok_Cons)
  from le1 le2 have keq: "k' = k" by simp
  then have veq: "v' = v" using \<open>map_find m' k = Some v\<close> by (simp add: m')
  have ok: "map_ok m" "map_ok ms'"
    using Cons.prems(1,2) by (auto simp: kv m' map_ok_Cons)
  have "map_find m x = map_find ms' x" for x
  proof (cases "x = k")
    case True
    have "map_find m k = None" using Cons.prems(1)
      by (auto simp: kv map_ok_Cons map_find_None_iff)
    moreover have "map_find ms' k = None" using Cons.prems(2)
      by (auto simp: m' keq map_ok_Cons map_find_None_iff)
    ultimately show ?thesis using True by simp
  next
    case False
    then show ?thesis using Cons.prems(3) [of x] by (simp add: kv m' keq)
  qed
  with Cons.IH ok have "m = ms'" by blast
  then show ?case by (simp add: kv m' keq veq)
qed

section \<open>The allocator\<close>

lemma table_ok_iff:
  "table_ok t \<longleftrightarrow> map_ok t \<and> (\<forall>entry \<in> set t. map_ok (cluster_weights_map (snd entry)))"
  by (simp add: table_ok_def list_all_iff)

lemma table_ok_Nil [simp]: "table_ok []"
  by (simp add: table_ok_iff)

lemma table_ok_find:
  "table_ok t \<Longrightarrow> map_find t nk = Some info \<Longrightarrow> map_ok (cluster_weights_map info)"
  by (metis table_ok_iff map_find_mem snd_conv)

lemma table_ok_assign:
  assumes "table_ok t" and "map_ok (cluster_weights_map info)"
  shows "table_ok (map_assign nk info t)"
  using assms set_map_assign [of nk info t]
  by (auto simp: table_ok_iff map_ok_assign)

lemma slot_assign:
  "slot (map_assign nk info t) nk' wk =
     (if nk' = nk then map_find (cluster_weights_map info) wk else slot t nk' wk)"
  by (simp add: slot_def map_find_assign)

lemma bucket_next_assign:
  "bucket_next (map_assign nk info t) nk' =
     (if nk' = nk then Some (next_index info) else bucket_next t nk')"
  by (simp add: bucket_next_def map_find_assign)

lemma slot_Nil [simp]: "slot [] nk wk = None"
  by (simp add: slot_def)

lemma bucket_next_Nil [simp]: "bucket_next [] nk = None"
  by (simp add: bucket_next_def)

lemma bucket_next_None_iff: "bucket_next t nk = None \<longleftrightarrow> map_find t nk = None"
  by (simp add: bucket_next_def)

lemma slot_Some_bucket: "slot t nk wk = Some i \<Longrightarrow> bucket_next t nk \<noteq> None"
  by (auto simp: slot_def bucket_next_def split: option.splits)

lemma subscript_slots:
  "map_find (cluster_weights_map (map_subscript t nk ClusterNamesInfo_init)) wk = slot t nk wk"
  by (simp add: map_subscript_def slot_def ClusterNamesInfo_init_def split: option.splits)

lemma subscript_next:
  "next_index (map_subscript t nk ClusterNamesInfo_init) =
     (case bucket_next t nk of None \<Rightarrow> 0 | Some n \<Rightarrow> n)"
  by (simp add: map_subscript_def bucket_next_def ClusterNamesInfo_init_def split: option.splits)

lemma subscript_ok:
  "table_ok t \<Longrightarrow> map_ok (cluster_weights_map (map_subscript t nk ClusterNamesInfo_init))"
  by (auto simp: map_subscript_def ClusterNamesInfo_init_def split: option.splits
      dest: table_ok_find)

subsection \<open>One iteration of the first pass\<close>

lemma exact_step_old_ok:
  assumes "table_ok (old_map st)"
  shows "table_ok (old_map (exact_match_step a st))"
proof (cases "map_find (old_map st) (snd a)")
  case None
  with assms show ?thesis by (simp add: exact_match_step_def)
next
  case (Some old_info)
  with assms have "map_ok (cluster_weights_map old_info)" by (rule table_ok_find)
  with assms Some show ?thesis
    by (auto simp: exact_match_step_def Let_def split: option.splits
        intro!: table_ok_assign map_ok_erase)
qed

lemma exact_step_new_ok:
  "table_ok (new_map st) \<Longrightarrow> table_ok (new_map (exact_match_step a st))"
  by (auto simp: exact_match_step_def Let_def split: option.splits
      intro!: table_ok_assign map_ok_assign subscript_ok)

lemma exact_step_old_slot:
  assumes "table_ok (old_map st)"
  shows "slot (old_map (exact_match_step (wk, nk) st)) nk' wk' =
     (if nk' = nk \<and> wk' = wk then None else slot (old_map st) nk' wk')"
proof (cases "map_find (old_map st) nk")
  case None
  then show ?thesis by (simp add: exact_match_step_def slot_def)
next
  case (Some old_info)
  with assms have "map_ok (cluster_weights_map old_info)" by (rule table_ok_find)
  with Some show ?thesis
    by (auto simp: exact_match_step_def Let_def slot_assign map_find_erase
        split: option.splits)
       (simp_all add: slot_def)
qed

lemma exact_step_old_next:
  "bucket_next (old_map (exact_match_step a st)) nk' = bucket_next (old_map st) nk'"
  by (auto simp: exact_match_step_def Let_def bucket_next_assign split: option.splits)
     (auto simp: bucket_next_def)

lemma exact_step_new_slot:
  "slot (new_map (exact_match_step (wk, nk) st)) nk' wk' =
     (if nk' = nk \<and> wk' = wk \<and> slot (old_map st) nk wk \<noteq> None
      then slot (old_map st) nk wk else slot (new_map st) nk' wk')"
  by (auto simp: exact_match_step_def Let_def slot_assign map_find_assign subscript_slots
      split: option.splits)
     (auto simp: slot_def)

lemma exact_step_new_next:
  "bucket_next (new_map (exact_match_step (wk, nk) st)) nk' =
     (if nk' = nk \<and> bucket_next (old_map st) nk \<noteq> None
      then bucket_next (old_map st) nk else bucket_next (new_map st) nk')"
  by (auto simp: exact_match_step_def Let_def bucket_next_assign split: option.splits)
     (auto simp: bucket_next_def)

lemma exact_step_pending:
  "pending (exact_match_step (wk, nk) st) =
     (if slot (old_map st) nk wk \<noteq> None then map_erase wk (pending st) else pending st)"
  by (auto simp: exact_match_step_def Let_def slot_def split: option.splits)

subsection \<open>The first pass\<close>

lemma exact_fold_old_ok:
  "table_ok (old_map st) \<Longrightarrow> table_ok (old_map (fold exact_match_step as st))"
  by (induction as arbitrary: st) (simp_all add: exact_step_old_ok)

lemma exact_fold_new_ok:
  "table_ok (new_map st) \<Longrightarrow> table_ok (new_map (fold exact_match_step as st))"
  by (induction as arbitrary: st) (simp_all add: exact_step_new_ok)

lemma exact_fold_old_slot:
  "table_ok (old_map st) \<Longrightarrow>
   slot (old_map (fold exact_match_step as st)) nk wk =
     (if (wk, nk) \<in> set as then None else slot (old_map st) nk wk)"
proof (induction as arbitrary: st)
  case Nil
  then show ?case by simp
next
  case (Cons a as)
  obtain wk0 nk0 where a: "a = (wk0, nk0)" by (cases a)
  from Cons.prems have "table_ok (old_map (exact_match_step a st))"
    by (rule exact_step_old_ok)
  from Cons.IH [OF this] Cons.prems show ?case
    by (auto simp: a exact_step_old_slot)
qed

lemma exact_fold_old_next:
  "bucket_next (old_map (fold exact_match_step as st)) nk = bucket_next (old_map st) nk"
  by (induction as arbitrary: st) (simp_all add: exact_step_old_next)

lemma exact_fold_new_slot:
  "table_ok (old_map st) \<Longrightarrow>
   slot (new_map (fold exact_match_step as st)) nk wk =
     (if (wk, nk) \<in> set as \<and> slot (old_map st) nk wk \<noteq> None
      then slot (old_map st) nk wk else slot (new_map st) nk wk)"
proof (induction as arbitrary: st)
  case Nil
  then show ?case by simp
next
  case (Cons a as)
  obtain wk0 nk0 where a: "a = (wk0, nk0)" by (cases a)
  from Cons.prems have "table_ok (old_map (exact_match_step a st))"
    by (rule exact_step_old_ok)
  from Cons.IH [OF this] Cons.prems show ?case
    by (auto simp: a exact_step_old_slot exact_step_new_slot)
qed

lemma exact_fold_new_next:
  "bucket_next (new_map (fold exact_match_step as st)) nk =
     (if (\<exists>wk. (wk, nk) \<in> set as) \<and> bucket_next (old_map st) nk \<noteq> None
      then bucket_next (old_map st) nk else bucket_next (new_map st) nk)"
proof (induction as arbitrary: st)
  case Nil
  then show ?case by simp
next
  case (Cons a as)
  obtain wk0 nk0 where a: "a = (wk0, nk0)" by (cases a)
  from Cons.IH [of "exact_match_step a st"] show ?case
    by (auto simp: a exact_step_old_next exact_step_new_next)
qed

lemma exact_fold_pending_ok:
  "map_ok (pending st) \<Longrightarrow> map_ok (pending (fold exact_match_step as st))"
proof (induction as arbitrary: st)
  case Nil
  then show ?case by simp
next
  case (Cons a as)
  obtain wk0 nk0 where a: "a = (wk0, nk0)" by (cases a)
  from Cons.prems have "map_ok (pending (exact_match_step a st))"
    by (simp add: a exact_step_pending map_ok_erase)
  from Cons.IH [OF this] show ?case by simp
qed

lemma exact_fold_pending:
  "map_ok (pending st) \<Longrightarrow> table_ok (old_map st) \<Longrightarrow>
   map_find (pending (fold exact_match_step as st)) wk =
     (if \<exists>nk. (wk, nk) \<in> set as \<and> slot (old_map st) nk wk \<noteq> None
      then None else map_find (pending st) wk)"
proof (induction as arbitrary: st)
  case Nil
  then show ?case by simp
next
  case (Cons a as)
  obtain wk0 nk0 where a: "a = (wk0, nk0)" by (cases a)
  define st1 where "st1 = exact_match_step a st"
  have ok1: "map_ok (pending st1)"
    using Cons.prems(1) by (simp add: st1_def a exact_step_pending map_ok_erase)
  have ok2: "table_ok (old_map st1)"
    unfolding st1_def using Cons.prems(2) by (rule exact_step_old_ok)
  have old1: "slot (old_map st1) nk wk =
      (if nk = nk0 \<and> wk = wk0 then None else slot (old_map st) nk wk)" for nk
    using Cons.prems(2) by (simp add: st1_def a exact_step_old_slot)
  have pend1: "pending st1 =
      (if slot (old_map st) nk0 wk0 \<noteq> None then map_erase wk0 (pending st) else pending st)"
    by (simp add: st1_def a exact_step_pending)
  have IH: "map_find (pending (fold exact_match_step as st1)) wk =
     (if \<exists>nk. (wk, nk) \<in> set as \<and> slot (old_map st1) nk wk \<noteq> None
      then None else map_find (pending st1) wk)"
    using ok1 ok2 by (rule Cons.IH)
  have "map_find (pending (fold exact_match_step as st1)) wk =
     (if \<exists>nk. (wk, nk) \<in> set (a # as) \<and> slot (old_map st) nk wk \<noteq> None
      then None else map_find (pending st) wk)"
  proof (cases "slot (old_map st) nk0 wk0 = None")
    case True
    then have "slot (old_map st1) nk wk = slot (old_map st) nk wk" for nk
      by (simp add: old1)
    moreover have "pending st1 = pending st" using True by (simp add: pend1)
    ultimately show ?thesis using IH True by (auto simp: a)
  next
    case False
    show ?thesis
    proof (cases "wk = wk0")
      case True
      have "map_find (pending st1) wk0 = None"
        using False Cons.prems(1) by (simp add: pend1 map_find_erase)
      with IH True False show ?thesis by (auto simp: a)
    next
      case wk: False
      then have "map_find (pending st1) wk = map_find (pending st) wk"
        using Cons.prems(1) by (simp add: pend1 map_find_erase)
      with IH wk show ?thesis by (auto simp: a old1)
    qed
  qed
  then show ?case by (simp add: st1_def)
qed

subsection \<open>One iteration of the second pass\<close>

lemma leftover_None_iff: "leftover t nk = None \<longleftrightarrow> (\<forall>wk. slot t nk wk = None)"
  by (simp add: leftover_def map_begin_None_iff subscript_slots [symmetric]
      map_find_all_None_iff)

lemma leftover_least:
  assumes "table_ok t" and "leftover t nk = Some (k0, i0)"
  shows "slot t nk k0 = Some i0" and "slot t nk k \<noteq> None \<Longrightarrow> k0 \<le> k"
  using map_begin_least [OF subscript_ok [OF assms(1)] assms(2) [unfolded leftover_def]]
  by (simp_all add: subscript_slots)

lemma next_or_zero_eq:
  "next_or_zero t nk = (case bucket_next t nk of None \<Rightarrow> 0 | Some n \<Rightarrow> n)"
  by (simp add: next_or_zero_def subscript_next)

lemma reuse_step_old_ok:
  assumes "table_ok (old_map st)"
  shows "table_ok (old_map (reuse_step a st))"
  using assms subscript_ok [OF assms, of "snd a"]
  by (auto simp: reuse_step_def Let_def split: option.splits
      intro!: table_ok_assign map_ok_erase)

lemma reuse_step_new_ok:
  assumes "table_ok (new_map st)"
  shows "table_ok (new_map (reuse_step a st))"
  using assms subscript_ok [OF assms, of "snd a"]
  by (auto simp: reuse_step_def Let_def split: option.splits
      intro!: table_ok_assign map_ok_assign)

lemma reuse_step_pending [simp]: "pending (reuse_step a st) = pending st"
  by (simp add: reuse_step_def Let_def split: option.splits)

lemma reuse_step_new_slot:
  "slot (new_map (reuse_step (wk, nk) st)) nk' wk' =
     (if nk' = nk \<and> wk' = wk
      then Some (case leftover (old_map st) nk of
                   Some old_entry \<Rightarrow> snd old_entry
                 | None \<Rightarrow> next_or_zero (new_map st) nk)
      else slot (new_map st) nk' wk')"
  by (auto simp: reuse_step_def Let_def slot_assign map_find_assign subscript_slots
      leftover_def next_or_zero_def split: option.splits)

lemma reuse_step_new_next:
  "bucket_next (new_map (reuse_step (wk, nk) st)) nk' =
     (if nk' = nk
      then Some (case leftover (old_map st) nk of
                   Some old_entry \<Rightarrow> next_or_zero (new_map st) nk
                 | None \<Rightarrow> next_or_zero (new_map st) nk + 1)
      else bucket_next (new_map st) nk')"
  by (auto simp: reuse_step_def Let_def bucket_next_assign
      leftover_def next_or_zero_def split: option.splits)

lemma reuse_step_old_slot:
  assumes "table_ok (old_map st)"
  shows "slot (old_map (reuse_step (wk, nk) st)) nk' wk' =
     (if nk' = nk \<and> map_option fst (leftover (old_map st) nk) = Some wk'
      then None else slot (old_map st) nk' wk')"
  using subscript_ok [OF assms, of nk]
  by (auto simp: reuse_step_def Let_def slot_assign map_find_erase subscript_slots
      leftover_def split: option.splits)

lemma reuse_step_old_next:
  "bucket_next (old_map (reuse_step (wk, nk) st)) nk' =
     (if nk' = nk then Some (next_or_zero (old_map st) nk) else bucket_next (old_map st) nk')"
  by (auto simp: reuse_step_def Let_def bucket_next_assign next_or_zero_def
      split: option.splits)

subsection \<open>The second pass\<close>

lemma reuse_fold_old_ok:
  "table_ok (old_map st) \<Longrightarrow> table_ok (old_map (fold reuse_step as st))"
  by (induction as arbitrary: st) (simp_all add: reuse_step_old_ok)


lemma reuse_fold_pending [simp]: "pending (fold reuse_step as st) = pending st"
  by (induction as arbitrary: st) simp_all

lemma reuse_fold_new_slot_iff:
  "slot (new_map (fold reuse_step as st)) nk wk \<noteq> None \<longleftrightarrow>
     slot (new_map st) nk wk \<noteq> None \<or> (wk, nk) \<in> set as"
proof (induction as arbitrary: st)
  case Nil
  then show ?case by simp
next
  case (Cons a as)
  obtain wk0 nk0 where a: "a = (wk0, nk0)" by (cases a)
  from Cons.IH [of "reuse_step a st"] show ?case
    by (auto simp: a reuse_step_new_slot)
qed

lemma reuse_fold_new_slot_other:
  "(wk, nk) \<notin> set as \<Longrightarrow>
   slot (new_map (fold reuse_step as st)) nk wk = slot (new_map st) nk wk"
proof (induction as arbitrary: st)
  case Nil
  then show ?case by simp
next
  case (Cons a as)
  obtain wk0 nk0 where a: "a = (wk0, nk0)" by (cases a)
  from Cons.IH [of "reuse_step a st"] Cons.prems show ?case
    by (auto simp: a reuse_step_new_slot)
qed


text \<open>A bucket that no pending action names is left alone by the second pass.\<close>

lemma reuse_step_other_bucket:
  "nk' \<noteq> nk \<Longrightarrow>
   map_find (new_map (reuse_step (wk, nk) st)) nk' = map_find (new_map st) nk' \<and>
   map_find (old_map (reuse_step (wk, nk) st)) nk' = map_find (old_map st) nk'"
  by (auto simp: reuse_step_def Let_def map_find_assign split: option.splits)

lemma reuse_fold_other_bucket:
  "\<forall>wk. (wk, nk) \<notin> set as \<Longrightarrow>
   map_find (new_map (fold reuse_step as st)) nk = map_find (new_map st) nk \<and>
   map_find (old_map (fold reuse_step as st)) nk = map_find (old_map st) nk"
proof (induction as arbitrary: st)
  case Nil
  then show ?case by simp
next
  case (Cons a as)
  obtain wk0 nk0 where a: "a = (wk0, nk0)" by (cases a)
  from Cons.prems have "nk \<noteq> nk0" and "\<forall>wk. (wk, nk) \<notin> set as"
    by (auto simp: a)
  with Cons.IH [of "reuse_step a st"] show ?case
    by (simp add: a reuse_step_other_bucket)
qed

subsection \<open>The requested actions\<close>

lemma add_action_ok: "map_ok acts \<Longrightarrow> map_ok (add_action route acts)"
  by (simp add: add_action_def Let_def map_ok_assign split: option.splits)

lemma fold_add_action_ok: "map_ok acts \<Longrightarrow> map_ok (fold add_action routes acts)"
  by (induction routes arbitrary: acts) (simp_all add: add_action_ok)

lemma actions_to_process_ok: "map_ok (actions_to_process rds_update)"
  by (simp add: actions_to_process_def fold_add_action_ok)

lemma map_ok_mem_iff: "map_ok m \<Longrightarrow> (k, v) \<in> set m \<longleftrightarrow> map_find m k = Some v"
  by (auto intro: map_ok_mem_find map_find_mem)

subsection \<open>The table after an update\<close>

lemma start_state_simps [simp]:
  "old_map (start_state t rds_update) = t"
  "new_map (start_state t rds_update) = []"
  "pending (start_state t rds_update) = actions_to_process rds_update"
  by (simp_all add: start_state_def)

lemma Update_eq:
  "UpdateWeightedClusterIndexMap t rds_update =
     new_map (reuse_pass (exact_match_pass (start_state t rds_update)))"
  by (simp add: UpdateWeightedClusterIndexMap_def start_state_def)


lemma exact_pass_pending_mem:
  assumes "table_ok t"
  shows "(wk, nk) \<in> set (pending (exact_match_pass (start_state t rds_update))) \<longleftrightarrow>
         (wk, nk) \<in> set (actions_to_process rds_update) \<and> slot t nk wk = None"
proof -
  let ?acts = "actions_to_process rds_update"
  let ?st = "start_state t rds_update"
  have ok: "map_ok ?acts" by (rule actions_to_process_ok)
  have ok1: "map_ok (pending (exact_match_pass ?st))"
    by (simp add: exact_match_pass_def exact_fold_pending_ok ok)
  have find1: "map_find (pending (exact_match_pass ?st)) wk =
      (if \<exists>nk. (wk, nk) \<in> set ?acts \<and> slot t nk wk \<noteq> None then None
       else map_find ?acts wk)"
    using exact_fold_pending [of ?st ?acts wk] assms ok
    by (auto simp: exact_match_pass_def)
  show ?thesis
  proof
    assume "(wk, nk) \<in> set (pending (exact_match_pass ?st))"
    then have "map_find (pending (exact_match_pass ?st)) wk = Some nk"
      using ok1 by (simp add: map_ok_mem_iff)
    with find1 have "map_find ?acts wk = Some nk"
      and no: "\<not> (\<exists>nk. (wk, nk) \<in> set ?acts \<and> slot t nk wk \<noteq> None)"
      by (auto split: if_splits)
    then have "(wk, nk) \<in> set ?acts" using ok by (simp add: map_ok_mem_iff)
    with no show "(wk, nk) \<in> set ?acts \<and> slot t nk wk = None" by blast
  next
    assume a: "(wk, nk) \<in> set ?acts \<and> slot t nk wk = None"
    then have f: "map_find ?acts wk = Some nk" using ok by (simp add: map_ok_mem_iff)
    have "\<not> (\<exists>nk'. (wk, nk') \<in> set ?acts \<and> slot t nk' wk \<noteq> None)"
    proof
      assume "\<exists>nk'. (wk, nk') \<in> set ?acts \<and> slot t nk' wk \<noteq> None"
      then obtain nk' where "(wk, nk') \<in> set ?acts" and s: "slot t nk' wk \<noteq> None" by blast
      then have "map_find ?acts wk = Some nk'" using ok by (simp add: map_ok_mem_iff)
      with f have "nk' = nk" by simp
      with s a show False by simp
    qed
    with find1 f have "map_find (pending (exact_match_pass ?st)) wk = Some nk" by simp
    then show "(wk, nk) \<in> set (pending (exact_match_pass ?st))" by (rule map_find_mem)
  qed
qed

lemma Update_slot_iff:
  assumes "table_ok t"
  shows "slot (UpdateWeightedClusterIndexMap t rds_update) nk wk \<noteq> None \<longleftrightarrow>
         (wk, nk) \<in> set (actions_to_process rds_update)"
proof -
  let ?st1 = "exact_match_pass (start_state t rds_update)"
  have new1: "slot (new_map ?st1) nk wk \<noteq> None \<longleftrightarrow>
      (wk, nk) \<in> set (actions_to_process rds_update) \<and> slot t nk wk \<noteq> None"
    using exact_fold_new_slot [of "start_state t rds_update" "actions_to_process rds_update" nk wk]
      assms
    by (simp add: exact_match_pass_def)
  show ?thesis
    unfolding Update_eq reuse_pass_def reuse_fold_new_slot_iff new1
      exact_pass_pending_mem [OF assms]
    by auto
qed


subsection \<open>Updating twice\<close>



lemma ActionName_slot:
  "WeightedClustersActionName t wcs \<noteq> None \<longleftrightarrow>
     slot t (cluster_names_key (GetWeightedClustersKey wcs))
       (cluster_weights_key (GetWeightedClustersKey wcs)) \<noteq> None"
  by (auto simp: WeightedClustersActionName_def slot_def Let_def split: option.splits)

text \<open>
  Two updates request the same actions when their weighted routes, taken in order, have
  the same clusters and weights.
\<close>

lemma add_action_no_clusters: "weighted_clusters route = [] \<Longrightarrow> add_action route acts = acts"
  by (simp add: add_action_def)

lemma fold_add_action_no_clusters:
  "\<forall>route \<in> set routes. weighted_clusters route = [] \<Longrightarrow> fold add_action routes acts = acts"
  by (induction routes arbitrary: acts) (simp_all add: add_action_no_clusters)

lemma add_action_same_clusters:
  "weighted_clusters route = weighted_clusters route' \<Longrightarrow>
   add_action route acts = add_action route' acts"
  by (simp only: add_action_def)

lemma fold_add_action_same_clusters:
  "map weighted_clusters (filter (\<lambda>route. weighted_clusters route \<noteq> []) second) =
   map weighted_clusters (filter (\<lambda>route. weighted_clusters route \<noteq> []) first) \<Longrightarrow>
   fold add_action second acts = fold add_action first acts"
proof (induction first arbitrary: second acts)
  case Nil
  then have "\<forall>route \<in> set second. weighted_clusters route = []"
    by (auto simp: filter_empty_conv)
  then show ?case by (simp add: fold_add_action_no_clusters)
next
  case (Cons r first)
  show ?case
  proof (cases "weighted_clusters r = []")
    case True
    with Cons.prems have
      "map weighted_clusters (filter (\<lambda>route. weighted_clusters route \<noteq> []) second) =
       map weighted_clusters (filter (\<lambda>route. weighted_clusters route \<noteq> []) first)"
      by simp
    then have "fold add_action second acts = fold add_action first acts"
      by (rule Cons.IH)
    with True show ?thesis by (simp add: add_action_no_clusters)
  next
    case False
    with Cons.prems have
      "map weighted_clusters (filter (\<lambda>route. weighted_clusters route \<noteq> []) second) =
       weighted_clusters r #
       map weighted_clusters (filter (\<lambda>route. weighted_clusters route \<noteq> []) first)"
      by simp
    then obtain r' rest where
      f: "filter (\<lambda>route. weighted_clusters route \<noteq> []) second = r' # rest"
      and same: "weighted_clusters r' = weighted_clusters r"
      and rest: "map weighted_clusters rest =
                 map weighted_clusters (filter (\<lambda>route. weighted_clusters route \<noteq> []) first)"
      unfolding map_eq_Cons_conv by blast
    from f obtain before after where
      second: "second = before @ r' # after"
      and before: "\<forall>route \<in> set before. weighted_clusters route = []"
      and after: "rest = filter (\<lambda>route. weighted_clusters route \<noteq> []) after"
      unfolding filter_eq_Cons_iff by blast
    have "fold add_action second acts = fold add_action after (add_action r' acts)"
      using before by (simp add: second fold_add_action_no_clusters)
    also have "\<dots> = fold add_action first (add_action r' acts)"
      using rest unfolding after by (rule Cons.IH)
    also have "add_action r' acts = add_action r acts"
      using same by (rule add_action_same_clusters)
    finally show ?thesis by simp
  qed
qed

lemma actions_to_process_same_clusters:
  "map weighted_clusters (filter (\<lambda>route. weighted_clusters route \<noteq> []) second) =
   map weighted_clusters (filter (\<lambda>route. weighted_clusters route \<noteq> []) first) \<Longrightarrow>
   actions_to_process second = actions_to_process first"
  unfolding actions_to_process_def by (rule fold_add_action_same_clusters)

lemma keys_map_assign: "fst ` set (map_assign k v m) = insert k (fst ` set m)"
proof (rule set_eqI)
  fix x
  have "x \<in> fst ` set (map_assign k v m) \<longleftrightarrow> map_find (map_assign k v m) x \<noteq> None"
    by (simp add: map_find_None_iff)
  also have "\<dots> \<longleftrightarrow> x = k \<or> map_find m x \<noteq> None"
    by (simp add: map_find_assign)
  also have "\<dots> \<longleftrightarrow> x \<in> insert k (fst ` set m)"
    by (simp add: map_find_None_iff)
  finally show "x \<in> fst ` set (map_assign k v m) \<longleftrightarrow> x \<in> insert k (fst ` set m)" .
qed

lemma add_action_set:
  "set (add_action route acts) \<subseteq>
     set acts \<union> (if weighted_clusters route \<noteq> [] then {route_keys route} else {})"
  using set_map_assign [of "fst (route_keys route)" "snd (route_keys route)" acts]
  by (auto simp: add_action_def route_keys_def Let_def split: option.splits)

lemma add_action_keys:
  "fst ` set (add_action route acts) =
     fst ` set acts \<union> (if weighted_clusters route \<noteq> [] then {fst (route_keys route)} else {})"
proof (cases "weighted_clusters route = []")
  case True
  then show ?thesis by (simp add: add_action_def)
next
  case False
  show ?thesis
  proof (cases "map_find acts (fst (route_keys route))")
    case None
    with False show ?thesis
      by (simp add: add_action_def route_keys_def Let_def keys_map_assign)
  next
    case (Some nk)
    then have "fst (route_keys route) \<in> fst ` set acts"
      by (metis map_find_None_iff option.distinct(1))
    with Some False show ?thesis
      by (auto simp: add_action_def route_keys_def Let_def)
  qed
qed

lemma fold_add_action_set:
  "set (fold add_action routes acts) \<subseteq> set acts \<union> weighted_keys routes"
proof (induction routes arbitrary: acts)
  case Nil
  then show ?case by simp
next
  case (Cons route routes)
  from Cons.IH [of "add_action route acts"] add_action_set [of route acts]
  show ?case by (auto simp: weighted_keys_def split: if_splits)
qed

lemma fold_add_action_keys:
  "fst ` set (fold add_action routes acts) = fst ` set acts \<union> fst ` weighted_keys routes"
proof (induction routes arbitrary: acts)
  case Nil
  then show ?case by (simp add: weighted_keys_def)
next
  case (Cons route routes)
  have "weighted_keys (route # routes) =
      (if weighted_clusters route \<noteq> [] then {route_keys route} else {}) \<union> weighted_keys routes"
    by (auto simp: weighted_keys_def)
  with Cons.IH [of "add_action route acts"] show ?case
    by (auto simp: add_action_keys)
qed

text \<open>
  When no two weighted routes of an update share their \<open>cluster_weights_key\<close> without
  sharing their \<open>cluster_names_key\<close>, the requested actions are the key pairs of its
  weighted routes, whatever the order of the routes.
\<close>

lemma actions_to_process_set:
  assumes "\<And>wk nk nk'. (wk, nk) \<in> weighted_keys u \<Longrightarrow> (wk, nk') \<in> weighted_keys u \<Longrightarrow> nk = nk'"
  shows "set (actions_to_process u) = weighted_keys u"
proof
  show sub: "set (actions_to_process u) \<subseteq> weighted_keys u"
    using fold_add_action_set [of u "[]"] by (simp add: actions_to_process_def)
  show "weighted_keys u \<subseteq> set (actions_to_process u)"
  proof
    fix p assume p: "p \<in> weighted_keys u"
    then have "fst p \<in> fst ` set (actions_to_process u)"
      using fold_add_action_keys [of u "[]"] by (simp add: actions_to_process_def)
    then obtain nk where m: "(fst p, nk) \<in> set (actions_to_process u)" by force
    with sub have "(fst p, nk) \<in> weighted_keys u" by blast
    moreover have "(fst p, snd p) \<in> weighted_keys u" using p by simp
    ultimately have "nk = snd p" by (rule assms)
    with m show "p \<in> set (actions_to_process u)" by simp
  qed
qed

lemma same_keys_same_actions:
  assumes "\<And>wk nk nk'. (wk, nk) \<in> weighted_keys first \<Longrightarrow> (wk, nk') \<in> weighted_keys first \<Longrightarrow>
             nk = nk'"
    and "weighted_keys second = weighted_keys first"
  shows "actions_to_process second = actions_to_process first"
proof (rule map_ext)
  show "map_ok (actions_to_process second)" "map_ok (actions_to_process first)"
    by (rule actions_to_process_ok)+
  have "set (actions_to_process first) = weighted_keys first"
    using assms(1) by (rule actions_to_process_set)
  moreover have "set (actions_to_process second) = weighted_keys second"
    using assms(1) unfolding assms(2) [symmetric] by (rule actions_to_process_set)
  ultimately have eq: "set (actions_to_process second) = set (actions_to_process first)"
    using assms(2) by simp
  fix k
  show "map_find (actions_to_process second) k = map_find (actions_to_process first) k"
  proof (cases "map_find (actions_to_process first) k")
    case None
    then have "k \<notin> fst ` set (actions_to_process second)"
      by (simp add: map_find_None_iff eq)
    then have "map_find (actions_to_process second) k = None"
      by (rule map_find_None_iff [THEN iffD2])
    with None show ?thesis by simp
  next
    case (Some v)
    then have "(k, v) \<in> set (actions_to_process second)"
      using map_find_mem [of "actions_to_process first" k v] by (simp add: eq)
    then have "map_find (actions_to_process second) k = Some v"
      using actions_to_process_ok by (rule map_ok_mem_find [rotated])
    with Some show ?thesis by simp
  qed
qed

text \<open>
  The routes of an update that \<open>CreateServiceConfig\<close> has named all of are such an
  update.
\<close>

lemma named_routes_keys:
  assumes "table_ok t"
    and "\<And>route. route \<in> set u \<Longrightarrow> weighted_clusters route \<noteq> [] \<Longrightarrow>
           WeightedClustersActionName (UpdateWeightedClusterIndexMap t u)
             (weighted_clusters route) \<noteq> None"
    and "(wk, nk) \<in> weighted_keys u" and "(wk, nk') \<in> weighted_keys u"
  shows "nk = nk'"
proof -
  have mem: "(k, n) \<in> set (actions_to_process u)" if "(k, n) \<in> weighted_keys u" for k n
  proof -
    from that obtain route where r: "route \<in> set u" "weighted_clusters route \<noteq> []"
      and k: "(k, n) = route_keys route"
      by (auto simp: weighted_keys_def)
    have "WeightedClustersActionName (UpdateWeightedClusterIndexMap t u)
            (weighted_clusters route) \<noteq> None"
      using r by (rule assms(2))
    then have "slot (UpdateWeightedClusterIndexMap t u)
        (cluster_names_key (GetWeightedClustersKey (weighted_clusters route)))
        (cluster_weights_key (GetWeightedClustersKey (weighted_clusters route))) \<noteq> None"
      by (rule ActionName_slot [THEN iffD1])
    with k have "slot (UpdateWeightedClusterIndexMap t u) n k \<noteq> None"
      by (simp add: route_keys_def)
    then show ?thesis using Update_slot_iff [OF assms(1)] by blast
  qed
  have "map_find (actions_to_process u) wk = Some nk"
    using actions_to_process_ok mem [OF assms(3)] by (rule map_ok_mem_find)
  moreover have "map_find (actions_to_process u) wk = Some nk'"
    using actions_to_process_ok mem [OF assms(4)] by (rule map_ok_mem_find)
  ultimately show ?thesis by simp
qed

lemma same_keys_named_same_actions:
  assumes "table_ok t"
    and "\<And>route. route \<in> set first \<Longrightarrow> weighted_clusters route \<noteq> [] \<Longrightarrow>
           WeightedClustersActionName (UpdateWeightedClusterIndexMap t first)
             (weighted_clusters route) \<noteq> None"
    and "weighted_keys second = weighted_keys first"
  shows "actions_to_process second = actions_to_process first"
proof (rule same_keys_same_actions)
  show "nk = nk'" if "(wk, nk) \<in> weighted_keys first" "(wk, nk') \<in> weighted_keys first"
    for wk nk nk'
    using assms(1,2) that by (rule named_routes_keys)
  show "weighted_keys second = weighted_keys first" by (rule assms(3))
qed

subsection \<open>The same routes again\<close>

lemma weighted_keys_list: "weighted_keys u = set (weighted_key_list u)"
  by (auto simp: weighted_keys_def weighted_key_list_def)

lemma collision_freeD:
  assumes "collision_free u" and "(wk, nk) \<in> weighted_keys u" and "(wk, nk') \<in> weighted_keys u"
  shows "nk = nk'"
  using assms unfolding collision_free_def weighted_keys_list list_all_iff
  by (auto split: if_splits)
















subsection \<open>Reuse of indices\<close>

lemma map_ok_distinct: "map_ok m \<Longrightarrow> distinct (map fst m)"
  by (simp add: map_ok_def strict_sorted_iff)

lemma map_ok_append_Cons_notin:
  assumes "map_ok (before @ (k, v) # after)"
  shows "(k, v') \<notin> set before" and "(k, v') \<notin> set after"
proof -
  from assms have d: "distinct (map fst (before @ (k, v) # after))"
    by (rule map_ok_distinct)
  show "(k, v') \<notin> set before" using d by (force simp: image_iff)
  show "(k, v') \<notin> set after" using d by (force simp: image_iff)
qed

lemma same_bucket:
  assumes "map_find a nk = map_find b nk"
  shows "slot a nk wk = slot b nk wk" and "bucket_next a nk = bucket_next b nk"
    and "leftover a nk = leftover b nk" and "next_or_zero a nk = next_or_zero b nk"
  using assms
  by (simp_all add: slot_def bucket_next_def leftover_def next_or_zero_def map_subscript_def)

lemma exact_pass_ok:
  assumes "table_ok t"
  shows "table_ok (old_map (exact_match_pass (start_state t u)))"
    and "table_ok (new_map (exact_match_pass (start_state t u)))"
    and "map_ok (pending (exact_match_pass (start_state t u)))"
  using assms
  by (simp_all add: exact_match_pass_def exact_fold_old_ok exact_fold_new_ok
      exact_fold_pending_ok actions_to_process_ok)

lemma exact_pass_old_slot:
  "table_ok t \<Longrightarrow>
   slot (old_map (exact_match_pass (start_state t u))) nk wk =
     (if (wk, nk) \<in> set (actions_to_process u) then None else slot t nk wk)"
  using exact_fold_old_slot [of "start_state t u" "actions_to_process u" nk wk]
  by (simp add: exact_match_pass_def)

lemma exact_pass_new_next:
  "bucket_next (new_map (exact_match_pass (start_state t u))) nk =
     (if (\<exists>wk. (wk, nk) \<in> set (actions_to_process u)) \<and> bucket_next t nk \<noteq> None
      then bucket_next t nk else None)"
  using exact_fold_new_next [of "actions_to_process u" "start_state t u" nk]
  by (simp add: exact_match_pass_def)

text \<open>The slot that the second pass gives to a pending action, seen in the final table.\<close>

lemma reuse_pass_assigns:
  assumes ok: "map_ok (pending st1)"
    and split: "pending st1 = before @ (wk, nk) # after"
  shows "slot (new_map (reuse_pass st1)) nk wk =
         Some (case leftover (old_map (fold reuse_step before st1)) nk of
                 Some old_entry \<Rightarrow> snd old_entry
               | None \<Rightarrow> next_or_zero (new_map (fold reuse_step before st1)) nk)"
proof -
  let ?st = "fold reuse_step before st1"
  have "(wk, nk) \<notin> set after"
    using ok unfolding split by (rule map_ok_append_Cons_notin)
  then have "slot (new_map (fold reuse_step after (reuse_step (wk, nk) ?st))) nk wk =
             slot (new_map (reuse_step (wk, nk) ?st)) nk wk"
    by (rule reuse_fold_new_slot_other)
  then show ?thesis
    by (simp add: reuse_pass_def split reuse_step_new_slot)
qed

text \<open>
  Claim C3. The actions that the first pass leaves pending are in increasing
  \<open>cluster_weights_key\<close> order, and the second pass runs through them in that order.
  When the turn of the pending action \<open>(wk, nk)\<close> comes and the bucket \<open>nk\<close> of the
  old table still has entries, the entry with the smallest \<open>cluster_weights_key\<close>
  among them is taken out, and its index is the one that the updated table holds for
  \<open>wk\<close>.
\<close>

theorem reuse_takes_smallest_leftover:
  assumes "table_ok t"
    and "st1 = exact_match_pass (start_state t rds_update)"
    and "pending st1 = before @ (wk, nk) # after"
    and "st = fold reuse_step before st1"
    and "slot (old_map st) nk k \<noteq> None"
  shows "sorted_wrt (<) (map fst (pending st1)) \<and>
         (\<exists>k0 i0. slot (old_map st) nk k0 = Some i0 \<and>
            (\<forall>k'. slot (old_map st) nk k' \<noteq> None \<longrightarrow> k0 \<le> k') \<and>
            slot (UpdateWeightedClusterIndexMap t rds_update) nk wk = Some i0 \<and>
            slot (old_map (reuse_step (wk, nk) st)) nk k0 = None)"
proof -
  have ok1: "map_ok (pending st1)" "table_ok (old_map st1)"
    using assms(1) by (simp_all add: assms(2) exact_pass_ok)
  have okst: "table_ok (old_map st)"
    unfolding assms(4) using ok1(2) by (rule reuse_fold_old_ok)
  from assms(5) have "leftover (old_map st) nk \<noteq> None"
    by (auto simp: leftover_None_iff)
  then obtain k0 i0 where l: "leftover (old_map st) nk = Some (k0, i0)" by auto
  have least: "slot (old_map st) nk k0 = Some i0"
    "\<And>k'. slot (old_map st) nk k' \<noteq> None \<Longrightarrow> k0 \<le> k'"
    using leftover_least [OF okst l] by blast+
  have "slot (new_map (reuse_pass st1)) nk wk = Some i0"
    using reuse_pass_assigns [OF ok1(1) assms(3)] l by (simp add: assms(4))
  then have assigned: "slot (UpdateWeightedClusterIndexMap t rds_update) nk wk = Some i0"
    by (simp add: Update_eq assms(2))
  have gone: "slot (old_map (reuse_step (wk, nk) st)) nk k0 = None"
    using l by (simp add: reuse_step_old_slot [OF okst])
  have "sorted_wrt (<) (map fst (pending st1))"
    using ok1(1) by (simp add: map_ok_def)
  with least assigned gone show ?thesis by blast
qed

theorem reuse_takes_smallest_leftover_witness:
  "table_ok two_slots_table \<and>
   pending (exact_match_pass (start_state two_slots_table other_weights_update)) =
     [] @ (''x_50_y_50'', ''x_y'') # [] \<and>
   slot (old_map (fold reuse_step []
           (exact_match_pass (start_state two_slots_table other_weights_update))))
     ''x_y'' ''x_20_y_80'' \<noteq> None \<and>
   (\<exists>k0 i0.
      slot (old_map (fold reuse_step []
              (exact_match_pass (start_state two_slots_table other_weights_update))))
        ''x_y'' k0 = Some i0 \<and>
      (\<forall>k'. slot (old_map (fold reuse_step []
                     (exact_match_pass (start_state two_slots_table other_weights_update))))
               ''x_y'' k' \<noteq> None \<longrightarrow> k0 \<le> k') \<and>
      slot (UpdateWeightedClusterIndexMap two_slots_table other_weights_update)
        ''x_y'' ''x_50_y_50'' = Some i0)"
proof -
  have h1: "table_ok two_slots_table" by code_simp
  have h3: "pending (exact_match_pass (start_state two_slots_table other_weights_update)) =
     [] @ (''x_50_y_50'', ''x_y'') # []" by code_simp
  have h5: "slot (old_map (fold reuse_step []
           (exact_match_pass (start_state two_slots_table other_weights_update))))
     ''x_y'' ''x_20_y_80'' \<noteq> None" by code_simp
  from reuse_takes_smallest_leftover [OF h1 refl h3 refl h5] h1 h3 h5
  show ?thesis by blast
qed

lemma exact_pass_leftover_least:
  assumes ok: "table_ok t"
    and A: "slot t nk wkA = Some i"
    and dropped: "(wkA, nk) \<notin> set (actions_to_process u)"
    and least: "\<And>wk. slot t nk wk \<noteq> None \<Longrightarrow> (wk, nk) \<notin> set (actions_to_process u) \<Longrightarrow> wkA \<le> wk"
  shows "leftover (old_map (exact_match_pass (start_state t u))) nk = Some (wkA, i)"
proof -
  let ?old = "old_map (exact_match_pass (start_state t u))"
  have okold: "table_ok ?old" using ok by (rule exact_pass_ok)
  have old: "slot ?old nk wk = (if (wk, nk) \<in> set (actions_to_process u) then None else slot t nk wk)" for wk
    using ok by (rule exact_pass_old_slot)
  have a: "slot ?old nk wkA = Some i" using A dropped by (simp add: old)
  then have "leftover ?old nk \<noteq> None" by (auto simp: leftover_None_iff)
  then obtain k0 i0 where l: "leftover ?old nk = Some (k0, i0)" by auto
  have k0: "slot ?old nk k0 = Some i0" and le: "k0 \<le> wkA"
    using leftover_least [OF okold l] a by auto
  from k0 have "slot t nk k0 \<noteq> None" and "(k0, nk) \<notin> set (actions_to_process u)"
    by (auto simp: old split: if_splits)
  then have "wkA \<le> k0" by (rule least)
  with le have "k0 = wkA" by simp
  with k0 a l show ?thesis by simp
qed

text \<open>
  An action that is the only one left pending for its bucket takes the index of the
  smallest entry that the first pass left in that bucket, and the \<open>next_index\<close> stays.
\<close>

lemma sole_new_action_takes_least_dropped:
  assumes "table_ok t"
    and "slot t nk wkA = Some i"
    and "(wkA, nk) \<notin> set (actions_to_process rds_update)"
    and "(wkB, nk) \<in> set (actions_to_process rds_update)"
    and "slot t nk wkB = None"
    and "\<forall>wk. (wk, nk) \<in> set (actions_to_process rds_update) \<and> slot t nk wk = None \<longrightarrow>
              wk = wkB"
    and "\<forall>wk. slot t nk wk \<noteq> None \<and> (wk, nk) \<notin> set (actions_to_process rds_update) \<longrightarrow>
              wkA \<le> wk"
  shows "slot (UpdateWeightedClusterIndexMap t rds_update) nk wkB = Some i \<and>
         bucket_next (UpdateWeightedClusterIndexMap t rds_update) nk = bucket_next t nk"
proof -
  let ?st1 = "exact_match_pass (start_state t rds_update)"
  have ok1: "map_ok (pending ?st1)" using assms(1) by (rule exact_pass_ok)
  have pend: "(wk, nk') \<in> set (pending ?st1) \<longleftrightarrow>
      (wk, nk') \<in> set (actions_to_process rds_update) \<and> slot t nk' wk = None" for wk nk'
    using assms(1) by (rule exact_pass_pending_mem)
  have "(wkB, nk) \<in> set (pending ?st1)" using assms(4,5) by (simp add: pend)
  then obtain before after where split: "pending ?st1 = before @ (wkB, nk) # after"
    by (auto simp: in_set_conv_decomp)
  have only: "(wk, nk) \<in> set (pending ?st1) \<Longrightarrow> wk = wkB" for wk
    using assms(6) by (simp add: pend)
  have nb: "\<forall>wk. (wk, nk) \<notin> set before"
  proof (intro allI notI)
    fix wk assume m: "(wk, nk) \<in> set before"
    then have "wk = wkB" using only [of wk] by (simp add: split)
    with m map_ok_append_Cons_notin(1) [OF ok1 [unfolded split], of nk] show False by simp
  qed
  have na: "\<forall>wk. (wk, nk) \<notin> set after"
  proof (intro allI notI)
    fix wk assume m: "(wk, nk) \<in> set after"
    then have "wk = wkB" using only [of wk] by (simp add: split)
    with m map_ok_append_Cons_notin(2) [OF ok1 [unfolded split], of nk] show False by simp
  qed
  let ?st = "fold reuse_step before ?st1"
  have frame: "map_find (new_map ?st) nk = map_find (new_map ?st1) nk"
    "map_find (old_map ?st) nk = map_find (old_map ?st1) nk"
    using reuse_fold_other_bucket [OF nb, of ?st1] by simp_all
  have left: "leftover (old_map ?st) nk = Some (wkA, i)"
    using exact_pass_leftover_least [OF assms(1,2,3)] assms(7)
    by (simp add: same_bucket(3) [OF frame(2)])
  have "bucket_next t nk \<noteq> None" using assms(2) by (rule slot_Some_bucket)
  then have next1: "bucket_next (new_map ?st1) nk = bucket_next t nk"
    using assms(4) by (auto simp: exact_pass_new_next)
  have "next_or_zero (new_map ?st) nk = next_or_zero (new_map ?st1) nk"
    using frame(1) by (rule same_bucket(4))
  then have nz: "Some (next_or_zero (new_map ?st) nk) = bucket_next t nk"
    using next1 \<open>bucket_next t nk \<noteq> None\<close>
    by (auto simp: next_or_zero_eq)
  let ?st2 = "reuse_step (wkB, nk) ?st"
  have final: "map_find (UpdateWeightedClusterIndexMap t rds_update) nk = map_find (new_map ?st2) nk"
    using reuse_fold_other_bucket [OF na, of ?st2]
    by (simp add: Update_eq reuse_pass_def split)
  have "slot (new_map ?st2) nk wkB = Some i"
    by (simp add: reuse_step_new_slot left)
  moreover have "bucket_next (new_map ?st2) nk = bucket_next t nk"
    by (simp add: reuse_step_new_next left nz)
  ultimately show ?thesis
    by (simp add: same_bucket(1,2) [OF final])
qed

text \<open>
  Claim C2, as the code has it. Let the table be well formed and let no two weighted
  routes of the update have the same \<open>cluster_weights_key\<close> and different
  \<open>cluster_names_key\<close>s. Let the bucket \<open>nk\<close> of the table hold the action \<open>wkA\<close>
  with index \<open>i\<close>, let no weighted route of the update have the keys \<open>(wkA, nk)\<close>, and
  let \<open>wkA\<close> be the smallest \<open>cluster_weights_key\<close> among the entries of the bucket
  that no weighted route of the update has. If the weighted routes of the update have
  exactly one pair of keys \<open>(wkB, nk)\<close> over \<open>nk\<close> that the bucket does not hold, then
  \<open>wkB\<close> gets the index \<open>i\<close>, and the \<open>next_index\<close> of the bucket is what it was.
\<close>

theorem dropped_action_index_is_reused:
  assumes "table_ok t"
    and "collision_free rds_update"
    and "slot t nk wkA = Some i"
    and "(wkA, nk) \<notin> weighted_keys rds_update"
    and "(wkB, nk) \<in> weighted_keys rds_update"
    and "slot t nk wkB = None"
    and "\<forall>wk. (wk, nk) \<in> weighted_keys rds_update \<and> slot t nk wk = None \<longrightarrow> wk = wkB"
    and "\<forall>wk. slot t nk wk \<noteq> None \<and> (wk, nk) \<notin> weighted_keys rds_update \<longrightarrow> wkA \<le> wk"
  shows "slot (UpdateWeightedClusterIndexMap t rds_update) nk wkB = Some i \<and>
         bucket_next (UpdateWeightedClusterIndexMap t rds_update) nk = bucket_next t nk"
proof -
  have acts: "set (actions_to_process rds_update) = weighted_keys rds_update"
  proof (rule actions_to_process_set)
    show "nk = nk'"
      if "(wk, nk) \<in> weighted_keys rds_update" "(wk, nk') \<in> weighted_keys rds_update"
      for wk nk nk'
      using assms(2) that by (rule collision_freeD)
  qed
  show ?thesis
    using assms(1,3) assms(4-8) [folded acts] by (rule sole_new_action_takes_least_dropped)
qed

lemma other_weights_keys: "weighted_keys other_weights_update = {(''x_50_y_50'', ''x_y'')}"
  unfolding weighted_keys_list by code_simp

theorem dropped_action_index_is_reused_witness:
  "table_ok two_slots_table \<and>
   collision_free other_weights_update \<and>
   slot two_slots_table ''x_y'' ''x_10_y_90'' = Some 0 \<and>
   (''x_10_y_90'', ''x_y'') \<notin> weighted_keys other_weights_update \<and>
   (''x_50_y_50'', ''x_y'') \<in> weighted_keys other_weights_update \<and>
   slot two_slots_table ''x_y'' ''x_50_y_50'' = None \<and>
   slot (UpdateWeightedClusterIndexMap two_slots_table other_weights_update)
     ''x_y'' ''x_50_y_50'' = Some 0 \<and>
   bucket_next (UpdateWeightedClusterIndexMap two_slots_table other_weights_update) ''x_y'' =
     bucket_next two_slots_table ''x_y''"
proof -
  have h1: "table_ok two_slots_table" by code_simp
  have h2: "collision_free other_weights_update" by code_simp
  have h3: "slot two_slots_table ''x_y'' ''x_10_y_90'' = Some 0" by code_simp
  have h4: "(''x_10_y_90'', ''x_y'') \<notin> weighted_keys other_weights_update"
    by (simp add: other_weights_keys)
  have h5: "(''x_50_y_50'', ''x_y'') \<in> weighted_keys other_weights_update"
    by (simp add: other_weights_keys)
  have h6: "slot two_slots_table ''x_y'' ''x_50_y_50'' = None" by code_simp
  have h7: "\<forall>wk. (wk, ''x_y'') \<in> weighted_keys other_weights_update \<and>
              slot two_slots_table ''x_y'' wk = None \<longrightarrow> wk = ''x_50_y_50''"
    by (simp add: other_weights_keys)
  have h8: "\<forall>wk. slot two_slots_table ''x_y'' wk \<noteq> None \<and>
              (wk, ''x_y'') \<notin> weighted_keys other_weights_update \<longrightarrow>
              ''x_10_y_90'' \<le> wk"
    by (auto simp: slot_def two_slots_table_def split: if_splits)
  from dropped_action_index_is_reused [OF h1 h2 h3 h4 h5 h6 h7 h8] h1 h2 h3 h4 h5 h6
  show ?thesis by (intro conjI) simp_all
qed

text \<open>
  Claim C2 as stated fails when the update drops another action of the bucket with a
  smaller \<open>cluster_weights_key\<close>: \<open>two_slots_table\<close> holds \<open>x_20_y_80\<close> with index 1,
  the update drops it and requests the single new action \<open>x_50_y_50\<close>, which gets
  the index 0 of \<open>x_10_y_90\<close>.
\<close>

theorem second_smallest_dropped_action_counterexample:
  "slot two_slots_table ''x_y'' ''x_20_y_80'' = Some 1 \<and>
   bucket_next two_slots_table ''x_y'' = Some 2 \<and>
   actions_to_process other_weights_update = [(''x_50_y_50'', ''x_y'')] \<and>
   slot two_slots_table ''x_y'' ''x_50_y_50'' = None \<and>
   slot (UpdateWeightedClusterIndexMap two_slots_table other_weights_update)
     ''x_y'' ''x_50_y_50'' = Some 0"
  by code_simp

text \<open>
  Without the condition on the keys the new action can be left without an index: the
  routes \<open>{a: 1, b: 2}\<close> and \<open>{a_1_b: 2}\<close> share the \<open>cluster_weights_key\<close>
  \<open>a_1_b_2\<close>, the first one decides the entry of \<open>actions_to_process\<close>, and the
  second one, the only new action over \<open>a_1_b\<close>, gets no entry in the table.
\<close>

lemma colliding_keys_keys:
  "weighted_keys colliding_keys_update = {(''a_1_b_2'', ''a_b''), (''a_1_b_2'', ''a_1_b'')}"
  unfolding weighted_keys_list by code_simp

lemma colliding_update_new_action_gets_no_slot:
  "UpdateWeightedClusterIndexMap [] [weighted_route ''/a'' [(''a_1_b'', 5)]] =
     colliding_bucket_table \<and>
   slot colliding_bucket_table ''a_1_b'' ''a_1_b_5'' = Some 0 \<and>
   (''a_1_b_5'', ''a_1_b'') \<notin> weighted_keys colliding_keys_update \<and>
   (''a_1_b_2'', ''a_1_b'') \<in> weighted_keys colliding_keys_update \<and>
   slot (UpdateWeightedClusterIndexMap colliding_bucket_table colliding_keys_update)
     ''a_1_b'' ''a_1_b_2'' = None"
proof (intro conjI)
  show "UpdateWeightedClusterIndexMap [] [weighted_route ''/a'' [(''a_1_b'', 5)]] =
     colliding_bucket_table" by code_simp
  show "slot colliding_bucket_table ''a_1_b'' ''a_1_b_5'' = Some 0" by code_simp
  show "(''a_1_b_5'', ''a_1_b'') \<notin> weighted_keys colliding_keys_update"
    by (simp add: colliding_keys_keys)
  show "(''a_1_b_2'', ''a_1_b'') \<in> weighted_keys colliding_keys_update"
    by (simp add: colliding_keys_keys)
  show "slot (UpdateWeightedClusterIndexMap colliding_bucket_table colliding_keys_update)
     ''a_1_b'' ''a_1_b_2'' = None" by code_simp
qed

subsection \<open>Indices over a sequence of updates\<close>

lemma reuse_invI:
  assumes "table_ok (old_map st)" and "table_ok (new_map st)"
    and "\<And>nk wk wk' i. slot (new_map st) nk wk = Some i \<Longrightarrow>
           slot (new_map st) nk wk' = Some i \<Longrightarrow> wk = wk'"
    and "\<And>nk wk wk' i. slot (new_map st) nk wk = Some i \<Longrightarrow>
           slot (old_map st) nk wk' \<noteq> Some i"
    and "\<And>nk wk i b. slot (new_map st) nk wk = Some i \<Longrightarrow>
           bucket_next (new_map st) nk = Some b \<Longrightarrow> unat i < unat b"
    and "\<And>nk wk i. slot (old_map st) nk wk = Some i \<Longrightarrow> slot t0 nk wk = Some i"
    and "\<And>nk a b. bucket_next t0 nk = Some a \<Longrightarrow>
           bucket_next (new_map st) nk = Some b \<Longrightarrow> unat a \<le> unat b"
    and "\<And>nk. bucket_next t0 nk \<noteq> None \<Longrightarrow> nk \<in> names \<Longrightarrow>
           bucket_next (new_map st) nk \<noteq> None"
    and "\<And>nk b. bucket_next (new_map st) nk = Some b \<Longrightarrow> unat b \<le> m"
  shows "reuse_inv m names t0 st"
  unfolding reuse_inv_def
proof (intro conjI allI impI)
  show "table_ok (old_map st)" by (rule assms(1))
  show "table_ok (new_map st)" by (rule assms(2))
  show "wk = wk'"
    if "slot (new_map st) nk wk = Some i \<and> slot (new_map st) nk wk' = Some i" for nk wk wk' i
    using that assms(3) by blast
  show "slot (old_map st) nk wk' \<noteq> Some i" if "slot (new_map st) nk wk = Some i" for nk wk wk' i
    using that by (rule assms(4))
  show "unat i < unat b"
    if "slot (new_map st) nk wk = Some i \<and> bucket_next (new_map st) nk = Some b" for nk wk i b
    using that assms(5) by blast
  show "slot t0 nk wk = Some i" if "slot (old_map st) nk wk = Some i" for nk wk i
    using that by (rule assms(6))
  show "unat a \<le> unat b"
    if "bucket_next t0 nk = Some a \<and> bucket_next (new_map st) nk = Some b" for nk a b
    using that assms(7) by blast
  show "bucket_next (new_map st) nk \<noteq> None" if "bucket_next t0 nk \<noteq> None \<and> nk \<in> names" for nk
    using that assms(8) by blast
  show "unat b \<le> m" if "bucket_next (new_map st) nk = Some b" for nk b
    using that by (rule assms(9))
qed

lemma reuse_invD:
  assumes "reuse_inv m names t0 st"
  shows "table_ok (old_map st)" and "table_ok (new_map st)"
    and "\<And>nk wk wk' i. slot (new_map st) nk wk = Some i \<Longrightarrow>
           slot (new_map st) nk wk' = Some i \<Longrightarrow> wk = wk'"
    and "\<And>nk wk wk' i. slot (new_map st) nk wk = Some i \<Longrightarrow>
           slot (old_map st) nk wk' \<noteq> Some i"
    and "\<And>nk wk i b. slot (new_map st) nk wk = Some i \<Longrightarrow>
           bucket_next (new_map st) nk = Some b \<Longrightarrow> unat i < unat b"
    and "\<And>nk wk i. slot (old_map st) nk wk = Some i \<Longrightarrow> slot t0 nk wk = Some i"
    and "\<And>nk a b. bucket_next t0 nk = Some a \<Longrightarrow>
           bucket_next (new_map st) nk = Some b \<Longrightarrow> unat a \<le> unat b"
    and "\<And>nk. bucket_next t0 nk \<noteq> None \<Longrightarrow> nk \<in> names \<Longrightarrow>
           bucket_next (new_map st) nk \<noteq> None"
    and "\<And>nk b. bucket_next (new_map st) nk = Some b \<Longrightarrow> unat b \<le> m"
  using assms unfolding reuse_inv_def by meson+

lemma alloc_invD:
  assumes "alloc_inv n t"
  shows "table_ok t"
    and "\<And>nk wk wk' i. slot t nk wk = Some i \<Longrightarrow> slot t nk wk' = Some i \<Longrightarrow> wk = wk'"
    and "\<And>nk wk i b. slot t nk wk = Some i \<Longrightarrow> bucket_next t nk = Some b \<Longrightarrow>
           unat i < unat b"
    and "\<And>nk b. bucket_next t nk = Some b \<Longrightarrow> unat b \<le> n"
  using assms unfolding alloc_inv_def by meson+

lemma alloc_invI:
  assumes "table_ok t"
    and "\<And>nk wk wk' i. slot t nk wk = Some i \<Longrightarrow> slot t nk wk' = Some i \<Longrightarrow> wk = wk'"
    and "\<And>nk wk i b. slot t nk wk = Some i \<Longrightarrow> bucket_next t nk = Some b \<Longrightarrow>
           unat i < unat b"
    and "\<And>nk b. bucket_next t nk = Some b \<Longrightarrow> unat b \<le> n"
  shows "alloc_inv n t"
  unfolding alloc_inv_def
proof (intro conjI allI impI)
  show "table_ok t" by (rule assms(1))
  show "wk = wk'" if "slot t nk wk = Some i \<and> slot t nk wk' = Some i" for nk wk wk' i
    using that assms(2) by blast
  show "unat i < unat b" if "slot t nk wk = Some i \<and> bucket_next t nk = Some b" for nk wk i b
    using that assms(3) by blast
  show "unat b \<le> n" if "bucket_next t nk = Some b" for nk b
    using that by (rule assms(4))
qed

lemma unat_succ:
  fixes x :: "64 word"
  assumes "unat x + 1 < 2 ^ 64"
  shows "unat (x + 1) = unat x + 1"
proof -
  have "unat x + unat (1 :: 64 word) < 2 ^ LENGTH(64)" using assms by simp
  then have "unat (x + 1) = unat x + unat (1 :: 64 word)"
    by (simp only: unat_add_lem)
  then show ?thesis by simp
qed

lemma reuse_step_inv_reuse:
  assumes inv0: "alloc_inv n t0"
    and inv: "reuse_inv m names t0 st"
    and nk: "nk \<in> names"
    and left: "leftover (old_map st) nk = Some (k0, i0)"
  shows "reuse_inv m names t0 (reuse_step (wk, nk) st)"
proof -
  let ?st' = "reuse_step (wk, nk) st"
  note ok = reuse_invD(1,2) [OF inv]
  note inj = reuse_invD(3) [OF inv] and cross = reuse_invD(4) [OF inv]
    and bound = reuse_invD(5) [OF inv] and sub = reuse_invD(6) [OF inv]
    and mono = reuse_invD(7) [OF inv] and act = reuse_invD(8) [OF inv]
    and top = reuse_invD(9) [OF inv]
  note inj0 = alloc_invD(2) [OF inv0] and bound0 = alloc_invD(3) [OF inv0]
  have k0: "slot (old_map st) nk k0 = Some i0"
    using leftover_least(1) [OF ok(1) left] .
  then have k0': "slot t0 nk k0 = Some i0" by (rule sub)
  then have "bucket_next t0 nk \<noteq> None" by (rule slot_Some_bucket)
  then obtain a where a: "bucket_next t0 nk = Some a" by auto
  from act [OF \<open>bucket_next t0 nk \<noteq> None\<close> nk]
  obtain b where b: "bucket_next (new_map st) nk = Some b" by auto
  have N1: "slot (new_map ?st') nk' w =
      (if nk' = nk \<and> w = wk then Some i0 else slot (new_map st) nk' w)" for nk' w
    by (simp add: reuse_step_new_slot left)
  have N2: "bucket_next (new_map ?st') nk' = bucket_next (new_map st) nk'" for nk'
    by (simp add: reuse_step_new_next left next_or_zero_eq b)
  have O1: "slot (old_map ?st') nk' w =
      (if nk' = nk \<and> w = k0 then None else slot (old_map st) nk' w)" for nk' w
    by (auto simp: reuse_step_old_slot [OF ok(1)] left)
  have i0b: "unat i0 < unat b"
    using bound0 [OF k0' a] mono [OF a b] by simp
  have c1: "table_ok (old_map ?st')" using ok(1) by (rule reuse_step_old_ok)
  have c2: "table_ok (new_map ?st')" using ok(2) by (rule reuse_step_new_ok)
  have c3: "wk1 = wk2" if "slot (new_map ?st') nk' wk1 = Some i" "slot (new_map ?st') nk' wk2 = Some i"
    for nk' wk1 wk2 i
    using that inj [of nk' wk1 i wk2] cross [of nk wk1 i0 k0] cross [of nk wk2 i0 k0] k0
    by (auto simp: N1 split: if_splits)
  have c4: "slot (old_map ?st') nk' w' \<noteq> Some i" if "slot (new_map ?st') nk' w = Some i"
    for nk' w w' i
  proof (cases "nk' = nk \<and> w = wk")
    case True
    with that have i: "i = i0" by (simp add: N1)
    show ?thesis
    proof
      assume "slot (old_map ?st') nk' w' = Some i"
      then have "w' \<noteq> k0" and "slot (old_map st) nk w' = Some i0"
        using True i by (auto simp: O1 split: if_splits)
      then have "slot t0 nk w' = Some i0" using sub by blast
      with k0' have "k0 = w'" by (rule inj0)
      with \<open>w' \<noteq> k0\<close> show False by simp
    qed
  next
    case False
    with that have "slot (new_map st) nk' w = Some i" by (auto simp: N1 split: if_splits)
    then have "slot (old_map st) nk' w' \<noteq> Some i" by (rule cross)
    then show ?thesis by (auto simp: O1)
  qed
  have c5: "unat i < unat b'" if "slot (new_map ?st') nk' w = Some i"
    "bucket_next (new_map ?st') nk' = Some b'" for nk' w i b'
    using that bound [of nk' w i b'] i0b b
    by (auto simp: N1 N2 split: if_splits)
  have c6: "slot t0 nk' w = Some i" if "slot (old_map ?st') nk' w = Some i" for nk' w i
    using that sub [of nk' w i] by (auto simp: O1 split: if_splits)
  have c7: "unat a' \<le> unat b'" if "bucket_next t0 nk' = Some a'"
    "bucket_next (new_map ?st') nk' = Some b'" for nk' a' b'
    using that mono [of nk' a' b'] by (simp add: N2)
  have c8: "bucket_next (new_map ?st') nk' \<noteq> None" if "bucket_next t0 nk' \<noteq> None" "nk' \<in> names"
    for nk'
    using act [OF that] by (simp add: N2)
  have c9: "unat b' \<le> m" if "bucket_next (new_map ?st') nk' = Some b'" for nk' b'
    using that top [of nk' b'] by (simp add: N2)
  show ?thesis
    using c1 c2 c3 c4 c5 c6 c7 c8 c9 by (rule reuse_invI)
qed


lemma reuse_step_inv_alloc:
  assumes inv: "reuse_inv m names t0 st"
    and nk: "nk \<in> names"
    and left: "leftover (old_map st) nk = None"
    and room: "m + 1 < 2 ^ 64"
  shows "reuse_inv (m + 1) names t0 (reuse_step (wk, nk) st)"
proof -
  let ?st' = "reuse_step (wk, nk) st"
  let ?nz = "next_or_zero (new_map st) nk"
  note ok = reuse_invD(1,2) [OF inv]
  note inj = reuse_invD(3) [OF inv] and cross = reuse_invD(4) [OF inv]
    and bound = reuse_invD(5) [OF inv] and sub = reuse_invD(6) [OF inv]
    and mono = reuse_invD(7) [OF inv] and act = reuse_invD(8) [OF inv]
    and top = reuse_invD(9) [OF inv]
  have empty: "slot (old_map st) nk w = None" for w
    using left by (simp add: leftover_None_iff)
  have N1: "slot (new_map ?st') nk' w =
      (if nk' = nk \<and> w = wk then Some ?nz else slot (new_map st) nk' w)" for nk' w
    by (simp add: reuse_step_new_slot left)
  have N2: "bucket_next (new_map ?st') nk' =
      (if nk' = nk then Some (?nz + 1) else bucket_next (new_map st) nk')" for nk'
    by (simp add: reuse_step_new_next left)
  have O1: "slot (old_map ?st') nk' w = slot (old_map st) nk' w" for nk' w
    by (simp add: reuse_step_old_slot [OF ok(1)] left)
  have nz_le: "unat ?nz \<le> m"
    using top [of nk] by (auto simp: next_or_zero_eq split: option.splits)
  then have succ: "unat (?nz + 1) = unat ?nz + 1"
    using room by (intro unat_succ) simp
  have below: "unat i < unat ?nz" if "slot (new_map st) nk w = Some i" for w i
  proof -
    from that have "bucket_next (new_map st) nk \<noteq> None" by (rule slot_Some_bucket)
    then obtain b where b: "bucket_next (new_map st) nk = Some b" by auto
    then have "?nz = b" by (simp add: next_or_zero_eq)
    with bound [OF that b] show ?thesis by simp
  qed
  have c1: "table_ok (old_map ?st')" using ok(1) by (rule reuse_step_old_ok)
  have c2: "table_ok (new_map ?st')" using ok(2) by (rule reuse_step_new_ok)
  have c3: "wk1 = wk2" if "slot (new_map ?st') nk' wk1 = Some i" "slot (new_map ?st') nk' wk2 = Some i"
    for nk' wk1 wk2 i
    using that inj [of nk' wk1 i wk2] below [of wk1 i] below [of wk2 i]
    by (auto simp: N1 split: if_splits)
  have c4: "slot (old_map ?st') nk' w' \<noteq> Some i" if "slot (new_map ?st') nk' w = Some i"
    for nk' w w' i
    using that cross [of nk' w i w'] empty [of w']
    by (auto simp: N1 O1 split: if_splits)
  have c5: "unat i < unat b'" if "slot (new_map ?st') nk' w = Some i"
    "bucket_next (new_map ?st') nk' = Some b'" for nk' w i b'
    using that bound [of nk' w i b'] below [of w i] succ
    by (auto simp: N1 N2 split: if_splits)
  have c6: "slot t0 nk' w = Some i" if "slot (old_map ?st') nk' w = Some i" for nk' w i
    using that sub [of nk' w i] by (simp add: O1)
  have c7: "unat a' \<le> unat b'" if "bucket_next t0 nk' = Some a'"
    "bucket_next (new_map ?st') nk' = Some b'" for nk' a' b'
  proof (cases "nk' = nk")
    case False
    with that mono [of nk' a' b'] show ?thesis by (simp add: N2)
  next
    case True
    with that have b': "b' = ?nz + 1" by (simp add: N2)
    show ?thesis
    proof (cases "bucket_next (new_map st) nk")
      case None
      with act [of nk] nk have "bucket_next t0 nk = None" by blast
      with that True show ?thesis by simp
    next
      case (Some b)
      then have nzb: "?nz = b" by (simp add: next_or_zero_eq)
      from that(1) True have "bucket_next t0 nk = Some a'" by simp
      then have "unat a' \<le> unat b" using Some by (rule mono)
      then have "unat a' \<le> unat ?nz + 1" unfolding nzb by simp
      then show ?thesis unfolding b' succ .
    qed
  qed
  have c8: "bucket_next (new_map ?st') nk' \<noteq> None" if "bucket_next t0 nk' \<noteq> None" "nk' \<in> names"
    for nk'
    using act [OF that] by (simp add: N2)
  have c9: "unat b' \<le> m + 1" if "bucket_next (new_map ?st') nk' = Some b'" for nk' b'
    using that top [of nk' b'] nz_le succ by (auto simp: N2 split: if_splits)
  show ?thesis
    using c1 c2 c3 c4 c5 c6 c7 c8 c9 by (rule reuse_invI)
qed

lemma reuse_inv_mono:
  assumes "reuse_inv m names t0 st" and "m \<le> m'"
  shows "reuse_inv m' names t0 st"
proof (rule reuse_invI)
  note D = reuse_invD [OF assms(1)]
  show "table_ok (old_map st)" by (rule D(1))
  show "table_ok (new_map st)" by (rule D(2))
  show "wk = wk'" if "slot (new_map st) nk wk = Some i" "slot (new_map st) nk wk' = Some i"
    for nk wk wk' i
    using that by (rule D(3))
  show "slot (old_map st) nk wk' \<noteq> Some i" if "slot (new_map st) nk wk = Some i"
    for nk wk wk' i
    using that by (rule D(4))
  show "unat i < unat b" if "slot (new_map st) nk wk = Some i" "bucket_next (new_map st) nk = Some b"
    for nk wk i b
    using that by (rule D(5))
  show "slot t0 nk wk = Some i" if "slot (old_map st) nk wk = Some i" for nk wk i
    using that by (rule D(6))
  show "unat a \<le> unat b" if "bucket_next t0 nk = Some a" "bucket_next (new_map st) nk = Some b"
    for nk a b
    using that by (rule D(7))
  show "bucket_next (new_map st) nk \<noteq> None" if "bucket_next t0 nk \<noteq> None" "nk \<in> names"
    for nk
    using that by (rule D(8))
  show "unat b \<le> m'" if "bucket_next (new_map st) nk = Some b" for nk b
    using D(9) [OF that] assms(2) by simp
qed

lemma reuse_step_inv:
  assumes "alloc_inv n t0" and "reuse_inv m names t0 st" and "nk \<in> names"
    and "m + 1 < 2 ^ 64"
  shows "reuse_inv (m + 1) names t0 (reuse_step (wk, nk) st)"
proof (cases "leftover (old_map st) nk")
  case None
  with assms(2,3) show ?thesis using assms(4) by (rule reuse_step_inv_alloc)
next
  case (Some old_entry)
  obtain k0 i0 where "old_entry = (k0, i0)" by (cases old_entry)
  with Some have "leftover (old_map st) nk = Some (k0, i0)" by simp
  with assms(1,2,3) have "reuse_inv m names t0 (reuse_step (wk, nk) st)"
    by (rule reuse_step_inv_reuse)
  then show ?thesis by (rule reuse_inv_mono) simp
qed

lemma reuse_fold_inv:
  assumes "alloc_inv n t0"
  shows "reuse_inv m names t0 st \<Longrightarrow> snd ` set as \<subseteq> names \<Longrightarrow>
         m + length as < 2 ^ 64 \<Longrightarrow>
         reuse_inv (m + length as) names t0 (fold reuse_step as st)"
proof (induction as arbitrary: m st)
  case Nil
  then show ?case by simp
next
  case (Cons a as)
  obtain wk nk where a: "a = (wk, nk)" by (cases a)
  from Cons.prems have nk: "nk \<in> names" and rest: "snd ` set as \<subseteq> names"
    by (auto simp: a)
  from Cons.prems(3) have room: "m + 1 < 2 ^ 64" "(m + 1) + length as < 2 ^ 64" by simp_all
  have "reuse_inv (m + 1) names t0 (reuse_step (wk, nk) st)"
    using assms Cons.prems(1) nk room(1) by (rule reuse_step_inv)
  from Cons.IH [OF this rest room(2)] show ?case by (simp add: a)
qed

lemma exact_pass_new_slot:
  "table_ok t \<Longrightarrow>
   slot (new_map (exact_match_pass (start_state t u))) nk wk =
     (if (wk, nk) \<in> set (actions_to_process u) then slot t nk wk else None)"
  using exact_fold_new_slot [of "start_state t u" "actions_to_process u" nk wk]
  by (auto simp: exact_match_pass_def)

lemma exact_pass_inv:
  assumes "alloc_inv n t0"
  shows "reuse_inv n {nk. \<exists>wk. (wk, nk) \<in> set (actions_to_process u)} t0
           (exact_match_pass (start_state t0 u))"
proof (rule reuse_invI)
  let ?st = "exact_match_pass (start_state t0 u)"
  note ok = alloc_invD(1) [OF assms]
  note new = exact_pass_new_slot [OF ok, of u] and old = exact_pass_old_slot [OF ok, of u]
    and nxt = exact_pass_new_next [of t0 u]
  show "table_ok (old_map ?st)" "table_ok (new_map ?st)"
    using ok by (rule exact_pass_ok)+
  show "wk = wk'" if "slot (new_map ?st) nk wk = Some i" "slot (new_map ?st) nk wk' = Some i"
    for nk wk wk' i
    using that alloc_invD(2) [OF assms, of nk wk i wk'] by (auto simp: new split: if_splits)
  show "slot (old_map ?st) nk wk' \<noteq> Some i" if "slot (new_map ?st) nk wk = Some i"
    for nk wk wk' i
    using that alloc_invD(2) [OF assms, of nk wk i wk'] by (auto simp: new old split: if_splits)
  show "unat i < unat b" if "slot (new_map ?st) nk wk = Some i" "bucket_next (new_map ?st) nk = Some b"
    for nk wk i b
    using that alloc_invD(3) [OF assms, of nk wk i b] by (auto simp: new nxt split: if_splits)
  show "slot t0 nk wk = Some i" if "slot (old_map ?st) nk wk = Some i" for nk wk i
    using that by (auto simp: old split: if_splits)
  show "unat a \<le> unat b" if "bucket_next t0 nk = Some a" "bucket_next (new_map ?st) nk = Some b"
    for nk a b
    using that by (auto simp: nxt split: if_splits)
  show "bucket_next (new_map ?st) nk \<noteq> None"
    if "bucket_next t0 nk \<noteq> None" "nk \<in> {nk. \<exists>wk. (wk, nk) \<in> set (actions_to_process u)}" for nk
    using that by (auto simp: nxt)
  show "unat b \<le> n" if "bucket_next (new_map ?st) nk = Some b" for nk b
    using that alloc_invD(4) [OF assms, of nk b] by (auto simp: nxt split: if_splits)
qed

lemma length_map_erase: "length (map_erase k m) \<le> length m"
  by (induction m) auto

lemma exact_fold_pending_length:
  "length (pending (fold exact_match_step as st)) \<le> length (pending st)"
proof (induction as arbitrary: st)
  case Nil
  then show ?case by simp
next
  case (Cons a as)
  obtain wk nk where a: "a = (wk, nk)" by (cases a)
  have "length (pending (exact_match_step a st)) \<le> length (pending st)"
    by (simp add: a exact_step_pending length_map_erase)
  with Cons.IH [of "exact_match_step a st"] show ?case by simp
qed

lemma exact_pass_pending_subset:
  assumes "table_ok t"
  shows "snd ` set (pending (exact_match_pass (start_state t u))) \<subseteq>
         {nk. \<exists>wk. (wk, nk) \<in> set (actions_to_process u)}"
  using exact_pass_pending_mem [OF assms, of _ _ u] by force

lemma Update_inv:
  assumes "alloc_inv n t0" and "n + length (actions_to_process u) < 2 ^ 64"
  shows "alloc_inv (n + length (actions_to_process u)) (UpdateWeightedClusterIndexMap t0 u)"
    and "bucket_next t0 nk = Some a \<Longrightarrow>
         bucket_next (UpdateWeightedClusterIndexMap t0 u) nk = Some b \<Longrightarrow> unat a \<le> unat b"
proof -
  let ?st1 = "exact_match_pass (start_state t0 u)"
  let ?names = "{nk. \<exists>wk. (wk, nk) \<in> set (actions_to_process u)}"
  let ?k = "length (pending ?st1)"
  have len: "?k \<le> length (actions_to_process u)"
    using exact_fold_pending_length [of "actions_to_process u" "start_state t0 u"]
    by (simp add: exact_match_pass_def)
  have inv1: "reuse_inv n ?names t0 ?st1" using assms(1) by (rule exact_pass_inv)
  have sub: "snd ` set (pending ?st1) \<subseteq> ?names"
    using alloc_invD(1) [OF assms(1)] by (rule exact_pass_pending_subset)
  have room: "n + ?k < 2 ^ 64" using len assms(2) by simp
  have inv2: "reuse_inv (n + ?k) ?names t0 (reuse_pass ?st1)"
    unfolding reuse_pass_def using assms(1) inv1 sub room by (rule reuse_fold_inv)
  have t: "UpdateWeightedClusterIndexMap t0 u = new_map (reuse_pass ?st1)"
    by (rule Update_eq)
  show "alloc_inv (n + length (actions_to_process u)) (UpdateWeightedClusterIndexMap t0 u)"
    unfolding t
  proof (rule alloc_invI)
    note D = reuse_invD [OF inv2]
    show "table_ok (new_map (reuse_pass ?st1))" by (rule D(2))
    show "wk = wk'" if "slot (new_map (reuse_pass ?st1)) nk wk = Some i"
      "slot (new_map (reuse_pass ?st1)) nk wk' = Some i" for nk wk wk' i
      using that by (rule D(3))
    show "unat i < unat b" if "slot (new_map (reuse_pass ?st1)) nk wk = Some i"
      "bucket_next (new_map (reuse_pass ?st1)) nk = Some b" for nk wk i b
      using that by (rule D(5))
    show "unat b \<le> n + length (actions_to_process u)"
      if "bucket_next (new_map (reuse_pass ?st1)) nk = Some b" for nk b
      using D(9) [OF that] len by simp
  qed
  show "unat a \<le> unat b" if "bucket_next t0 nk = Some a"
    "bucket_next (UpdateWeightedClusterIndexMap t0 u) nk = Some b"
    using reuse_invD(7) [OF inv2 that(1)] that(2) by (simp add: t)
qed

lemma alloc_inv_empty: "alloc_inv 0 []"
  by (rule alloc_invI) simp_all

lemma run_updates_snoc:
  "run_updates (updates @ [u]) t = UpdateWeightedClusterIndexMap (run_updates updates t) u"
  by (simp add: run_updates_def)

lemma requested_total_snoc:
  "requested_total (updates @ [u]) = requested_total updates + length (actions_to_process u)"
  by (simp add: requested_total_def)

lemma run_updates_inv:
  "requested_total updates < 2 ^ 64 \<Longrightarrow>
   alloc_inv (requested_total updates) (run_updates updates [])"
proof (induction updates rule: rev_induct)
  case Nil
  show ?case by (simp add: run_updates_def requested_total_def alloc_inv_empty)
next
  case (snoc u updates)
  from snoc.prems have room: "requested_total updates + length (actions_to_process u) < 2 ^ 64"
    by (simp add: requested_total_snoc)
  then have "requested_total updates < 2 ^ 64" by simp
  then have "alloc_inv (requested_total updates) (run_updates updates [])" by (rule snoc.IH)
  then have "alloc_inv (requested_total updates + length (actions_to_process u))
               (UpdateWeightedClusterIndexMap (run_updates updates []) u)"
    using room by (rule Update_inv(1))
  then show ?case by (simp add: run_updates_snoc requested_total_snoc)
qed

lemma distinct_values:
  assumes "map_ok m"
    and "\<And>k k' i. map_find m k = Some i \<Longrightarrow> map_find m k' = Some i \<Longrightarrow> k = k'"
  shows "distinct (map snd m)"
proof -
  have "distinct m" using map_ok_distinct [OF assms(1)] by (simp add: distinct_map)
  moreover have "inj_on snd (set m)"
  proof (rule inj_onI)
    fix x y assume x: "x \<in> set m" and y: "y \<in> set m" and eq: "snd x = snd y"
    have "map_find m (fst x) = Some (snd x)" using assms(1) x by (simp add: map_ok_mem_find)
    moreover have "map_find m (fst y) = Some (snd x)"
      using assms(1) y eq by (simp add: map_ok_mem_find)
    ultimately have "fst x = fst y" by (rule assms(2))
    with eq show "x = y" by (simp add: prod_eq_iff)
  qed
  ultimately show ?thesis by (simp add: distinct_map)
qed

lemma alloc_inv_indices_distinct:
  assumes "alloc_inv n t"
  shows "indices_distinct t"
  unfolding indices_distinct_def list_all_iff
proof
  fix entry assume mem: "entry \<in> set t"
  note ok = alloc_invD(1) [OF assms]
  have "map_ok t" using ok by (simp add: table_ok_iff)
  with mem have f: "map_find t (fst entry) = Some (snd entry)"
    by (simp add: map_ok_mem_find)
  have slots: "slot t (fst entry) wk = map_find (cluster_weights_map (snd entry)) wk" for wk
    by (simp add: slot_def f)
  show "distinct (map snd (cluster_weights_map (snd entry)))"
  proof (rule distinct_values)
    show "map_ok (cluster_weights_map (snd entry))" using ok f by (rule table_ok_find)
    show "k = k'" if "map_find (cluster_weights_map (snd entry)) k = Some i"
      "map_find (cluster_weights_map (snd entry)) k' = Some i" for k k' i
      using alloc_invD(2) [OF assms, of "fst entry" k i k'] that by (simp add: slots)
  qed
qed

text \<open>
  Claim C4, as the code has it. Take any sequence of updates applied from the empty
  table, requesting fewer than \<open>2 ^ 64\<close> actions altogether (the counter
  \<open>next_index\<close> is a \<open>uint64_t\<close>). After its last update the indices of the entries of
  every bucket are pairwise distinct, and a bucket that is present both before and
  after that update has a \<open>next_index\<close> that is not smaller after it.
\<close>

theorem indices_distinct_and_next_index_grows:
  assumes "requested_total (updates @ [rds_update]) < 2 ^ 64"
  shows "indices_distinct (run_updates (updates @ [rds_update]) []) \<and>
         (\<forall>nk a b. bucket_next (run_updates updates []) nk = Some a \<and>
                   bucket_next (run_updates (updates @ [rds_update]) []) nk = Some b \<longrightarrow>
                   a \<le> b)"
proof (intro conjI allI impI)
  show "indices_distinct (run_updates (updates @ [rds_update]) [])"
    using run_updates_inv [OF assms] by (rule alloc_inv_indices_distinct)
  fix nk a b
  assume ab: "bucket_next (run_updates updates []) nk = Some a \<and>
              bucket_next (run_updates (updates @ [rds_update]) []) nk = Some b"
  from assms have room:
    "requested_total updates + length (actions_to_process rds_update) < 2 ^ 64"
    by (simp add: requested_total_snoc)
  then have "requested_total updates < 2 ^ 64" by simp
  then have inv: "alloc_inv (requested_total updates) (run_updates updates [])"
    by (rule run_updates_inv)
  have "unat a \<le> unat b"
    using Update_inv(2) [OF inv room, of nk a b] ab by (simp add: run_updates_snoc)
  then show "a \<le> b" by (simp add: word_le_nat_alt)
qed

theorem indices_distinct_and_next_index_grows_witness:
  "requested_total ([one_action_update] @ [two_actions_update]) < 2 ^ 64 \<and>
   indices_distinct (run_updates ([one_action_update] @ [two_actions_update]) []) \<and>
   bucket_next (run_updates [one_action_update] []) ''x_y'' = Some 1 \<and>
   bucket_next (run_updates ([one_action_update] @ [two_actions_update]) []) ''x_y'' = Some 2 \<and>
   (1 :: 64 word) \<le> 2"
proof -
  have "requested_total ([one_action_update] @ [two_actions_update]) = 3"
    by code_simp
  then have h: "requested_total ([one_action_update] @ [two_actions_update]) < 2 ^ 64"
    by simp
  have b1: "bucket_next (run_updates [one_action_update] []) ''x_y'' = Some 1"
    by code_simp
  have b2: "bucket_next (run_updates ([one_action_update] @ [two_actions_update]) []) ''x_y'' =
            Some 2"
    by code_simp
  note w = indices_distinct_and_next_index_grows [OF h]
  from w have d: "indices_distinct (run_updates ([one_action_update] @ [two_actions_update]) [])"
    by (rule conjunct1)
  from w b1 b2 have le: "(1 :: 64 word) \<le> 2" by blast
  from h d b1 b2 le show ?thesis by (intro conjI)
qed

text \<open>
  Claim C4 as stated fails when the bucket is absent in between: the bucket \<open>x_y\<close>
  has \<open>next_index\<close> 2 after the first update, is dropped by the second, which has no
  weighted route, and the next update in which it is present creates it anew, with
  \<open>next_index\<close> 1.
\<close>

theorem next_index_restarts_counterexample:
  "bucket_next (run_updates [two_actions_update] []) ''x_y'' = Some 2 \<and>
   bucket_next (run_updates [two_actions_update, single_cluster_update] []) ''x_y'' = None \<and>
   bucket_next (run_updates [two_actions_update, single_cluster_update, one_action_update] [])
     ''x_y'' = Some 1"
  by code_simp

section \<open>The compiler on colliding names\<close>

text \<open>
  The loop of \<open>CreateServiceConfig\<close> appends one route entry per route, in the order
  of the routes, each under the key that \<open>route_action_key\<close> composes.
\<close>

lemma compile_routes_route_table:
  "compile_routes t routes cs = Some cs' \<Longrightarrow>
   route_table cs' = route_table cs @
     map (\<lambda>route. CreateServiceConfigRoute
            (route_action_key route (the (route_action_name t route))) route) routes"
proof (induction routes arbitrary: cs)
  case Nil
  then show ?case by simp
next
  case (Cons route routes)
  from Cons.prems obtain cs1 where
    step: "compile_route t route cs = Some cs1" and rest: "compile_routes t routes cs1 = Some cs'"
    by (auto split: option.splits)
  from step have "route_table cs1 = route_table cs @
      [CreateServiceConfigRoute (route_action_key route (the (route_action_name t route))) route]"
    by (auto simp: compile_route_def Let_def split: option.splits if_splits)
  with Cons.IH [OF rest] show ?case by simp
qed

text \<open>
  Claim C6 at the input \<open>colliding_names_update\<close>: the cluster name \<open>a_b_0\<close> and the
  allocator's name \<open>a_b_0\<close> coincide. \<open>actions_set\<close> is keyed by the name without its
  kind, so the weighted action is taken for emitted already: the document defines
  \<open>cds:a_b_0\<close> only, and the second route refers to \<open>weighted:a_b_0\<close>, which no action
  defines.
\<close>

theorem colliding_action_name_drops_definition:
  "map_option (\<lambda>cs. (actions_vector cs, route_table cs))
     (compile_routes (UpdateWeightedClusterIndexMap [] colliding_names_update)
        colliding_names_update compile_init) =
   Some ([CreateServiceConfigActionCluster ''a_b_0''],
         [CreateServiceConfigRoute ''cds:a_b_0'' (cluster_route ''/a'' ''a_b_0''),
          CreateServiceConfigRoute ''weighted:a_b_0''
            (weighted_route ''/b'' [(''a'', 1), (''b'', 1)])])"
  by code_simp

text \<open>
  When no two weighted routes of the update share their \<open>cluster_weights_key\<close> without
  sharing their \<open>cluster_names_key\<close>, the lookup finds a name for every weighted route
  of the update.
\<close>

lemma lookup_succeeds_without_collision:
  assumes "table_ok t"
    and "\<And>wk nk nk'. (wk, nk) \<in> weighted_keys u \<Longrightarrow> (wk, nk') \<in> weighted_keys u \<Longrightarrow> nk = nk'"
    and "route \<in> set u" and "weighted_clusters route \<noteq> []"
  shows "WeightedClustersActionName (UpdateWeightedClusterIndexMap t u)
           (weighted_clusters route) \<noteq> None"
proof -
  have "route_keys route \<in> weighted_keys u"
    using assms(3,4) by (simp add: weighted_keys_def)
  then have "route_keys route \<in> set (actions_to_process u)"
    using actions_to_process_set [OF assms(2)] by simp
  then have "slot (UpdateWeightedClusterIndexMap t u)
      (cluster_names_key (GetWeightedClustersKey (weighted_clusters route)))
      (cluster_weights_key (GetWeightedClustersKey (weighted_clusters route))) \<noteq> None"
    unfolding route_keys_def by (rule Update_slot_iff [OF assms(1), THEN iffD2])
  then show ?thesis by (rule ActionName_slot [THEN iffD2])
qed

text \<open>
  The condition \<open>collision_free\<close> on an update says no more than that the lookup finds
  a name for each of its weighted routes, that is, that \<open>CreateServiceConfig\<close> does not
  abort on it.
\<close>

lemma collision_free_iff_named:
  assumes "table_ok t"
  shows "collision_free u \<longleftrightarrow>
         (\<forall>route \<in> set u. weighted_clusters route \<noteq> [] \<longrightarrow>
            WeightedClustersActionName (UpdateWeightedClusterIndexMap t u)
              (weighted_clusters route) \<noteq> None)"
proof
  assume cf: "collision_free u"
  show "\<forall>route \<in> set u. weighted_clusters route \<noteq> [] \<longrightarrow>
            WeightedClustersActionName (UpdateWeightedClusterIndexMap t u)
              (weighted_clusters route) \<noteq> None"
  proof (intro ballI impI)
    fix route assume "route \<in> set u" "weighted_clusters route \<noteq> []"
    with assms collision_freeD [OF cf]
    show "WeightedClustersActionName (UpdateWeightedClusterIndexMap t u)
              (weighted_clusters route) \<noteq> None"
      by (rule lookup_succeeds_without_collision)
  qed
next
  assume named: "\<forall>route \<in> set u. weighted_clusters route \<noteq> [] \<longrightarrow>
            WeightedClustersActionName (UpdateWeightedClusterIndexMap t u)
              (weighted_clusters route) \<noteq> None"
  have f: "nk = nk'" if "(wk, nk) \<in> weighted_keys u" "(wk, nk') \<in> weighted_keys u" for wk nk nk'
    using assms _ that
  proof (rule named_routes_keys)
    fix route assume "route \<in> set u" "weighted_clusters route \<noteq> []"
    with named show "WeightedClustersActionName (UpdateWeightedClusterIndexMap t u)
              (weighted_clusters route) \<noteq> None" by blast
  qed
  show "collision_free u"
    unfolding collision_free_def list_all_iff weighted_keys_list [symmetric]
  proof (intro ballI)
    fix p q assume "p \<in> weighted_keys u" "q \<in> weighted_keys u"
    then show "if fst p = fst q then snd p = snd q else True"
      using f [of "fst p" "snd p" "snd q"] by (cases p; cases q) auto
  qed
qed

text \<open>
  Claim C10 at the input \<open>colliding_keys_update\<close>: both routes have the
  \<open>cluster_weights_key\<close> \<open>a_1_b_2\<close>, so the second one is not entered into
  \<open>actions_to_process\<close> and the table gets the bucket \<open>a_b\<close> only. The lookup for the
  second route asks for the bucket \<open>a_1_b\<close>: the first \<open>GPR_ASSERT\<close> of
  \<open>WeightedClustersActionName\<close> fails, and \<open>CreateServiceConfig\<close> aborts.
\<close>

theorem colliding_weights_key_aborts:
  "UpdateWeightedClusterIndexMap [] colliding_keys_update =
     [(''a_b'', \<lparr>next_index = 1, cluster_weights_map = [(''a_1_b_2'', 0)]\<rparr>)] \<and>
   GetWeightedClustersKey (weighted_clusters (weighted_route ''/b'' [(''a_1_b'', 2)])) =
     \<lparr>cluster_names_key = ''a_1_b'', cluster_weights_key = ''a_1_b_2''\<rparr> \<and>
   WeightedClustersActionName (UpdateWeightedClusterIndexMap [] colliding_keys_update)
     (weighted_clusters (weighted_route ''/b'' [(''a_1_b'', 2)])) = None \<and>
   CreateServiceConfig accepts_all [] colliding_keys_update = None"
  by code_simp

section \<open>The listener watcher\<close>

lemma notify_without_client:
  "xds_client resolver = None \<Longrightarrow> notify rejects n resolver = Some resolver"
  by (cases n) (simp_all add: OnListenerChanged_def OnError_def OnResourceDoesNotExist_def)

lemma notify_all_without_client:
  "xds_client resolver = None \<Longrightarrow> notify_all rejects ns resolver = Some resolver"
  by (induction ns) (simp_all add: notify_without_client)

text \<open>
  Claim C7, as the code has it. Every result that \<open>OnListenerChanged\<close> or \<open>OnError\<close>
  delivers carries the resolver's base args followed by the discovery client's
  channel arg; a result without an error (the one of a compiled update) carries the
  config selector's channel arg after that.
\<close>

theorem delivered_args_carry_xds_client:
  assumes "notify rejects n resolver = Some resolver'" and "n \<noteq> ResourceDoesNotExist"
  shows "\<exists>results. result_handler resolver' = result_handler resolver @ results \<and>
           (\<forall>result \<in> set results. \<exists>xds_client_arg.
              xds_client resolver = Some xds_client_arg \<and>
              args result = grpc_channel_args_copy_and_add (channel_args resolver)
                (if service_config_error result = None
                 then [xds_client_arg, config_selector resolver] else [xds_client_arg]))"
proof (cases n)
  case (ListenerChanged rds_update)
  with assms(1) show ?thesis
    by (auto simp: OnListenerChanged_def OnError_def ReturnResult_def Result_init_def Let_def
        split: option.splits)
next
  case (Error e)
  with assms(1) show ?thesis
    by (auto simp: OnError_def ReturnResult_def Result_init_def split: option.splits)
next
  case ResourceDoesNotExist
  with assms(2) show ?thesis by simp
qed

theorem delivered_args_carry_xds_client_witness:
  "notify accepts_all (Error ''unavailable'') live_resolver \<noteq> None \<and>
   Error ''unavailable'' \<noteq> ResourceDoesNotExist \<and>
   (\<exists>results.
      result_handler (the (notify accepts_all (Error ''unavailable'') live_resolver)) =
        result_handler live_resolver @ results \<and>
      (\<forall>result \<in> set results. \<exists>xds_client_arg.
         xds_client live_resolver = Some xds_client_arg \<and>
         args result = grpc_channel_args_copy_and_add (channel_args live_resolver)
           (if service_config_error result = None
            then [xds_client_arg, config_selector live_resolver] else [xds_client_arg])))"
  using delivered_args_carry_xds_client
    [of accepts_all "Error ''unavailable''" live_resolver
        "the (notify accepts_all (Error ''unavailable'') live_resolver)"]
  by simp

text \<open>
  Claim C7 as stated fails for \<open>OnResourceDoesNotExist\<close>: the result it delivers carries
  the base args alone.
\<close>

theorem OnResourceDoesNotExist_args_counterexample:
  "map args (result_handler (the (OnResourceDoesNotExist accepts_all live_resolver))) =
     [[(''grpc.default_authority'', ''server.example.com'')]] \<and>
   map args (result_handler (the (OnResourceDoesNotExist accepts_all live_resolver))) \<noteq>
     [grpc_channel_args_copy_and_add (channel_args live_resolver)
        [the (xds_client live_resolver)]]"
  by (simp add: OnResourceDoesNotExist_def ServiceConfig_Create_def ReturnResult_def
      Result_init_def grpc_channel_args_copy_def grpc_channel_args_copy_and_add_def
      live_resolver_def accepts_all_def)

text \<open>
  Claim C8. When the resolver is live and the document builder accepts the text
  \<open>{}\<close>, \<open>OnResourceDoesNotExist\<close> delivers exactly one result: its document is the
  one of the text \<open>{}\<close>, which has no routes and no actions, and it has no error.
\<close>

theorem OnResourceDoesNotExist_delivers_empty_document:
  assumes "xds_client resolver \<noteq> None" and "rejects ''{}'' = None"
  shows "OnResourceDoesNotExist rejects resolver =
         Some (resolver\<lparr>result_handler := result_handler resolver @
           [\<lparr>service_config = Some \<lparr>json_string = ''{}''\<rparr>,
             service_config_error = None,
             args = channel_args resolver\<rparr>]\<rparr>)"
  using assms
  by (auto simp: OnResourceDoesNotExist_def ServiceConfig_Create_def ReturnResult_def
      Result_init_def grpc_channel_args_copy_def)

theorem OnResourceDoesNotExist_delivers_empty_document_witness:
  "xds_client live_resolver \<noteq> None \<and> accepts_all ''{}'' = None \<and>
   OnResourceDoesNotExist accepts_all live_resolver =
     Some (live_resolver\<lparr>result_handler :=
       [\<lparr>service_config = Some \<lparr>json_string = ''{}''\<rparr>,
         service_config_error = None,
         args = [(''grpc.default_authority'', ''server.example.com'')]\<rparr>]\<rparr>)"
  using OnResourceDoesNotExist_delivers_empty_document [of live_resolver accepts_all]
  by (simp add: live_resolver_def accepts_all_def)

text \<open>
  Claim C9. After \<open>ShutdownLocked\<close>, any queue of watcher notifications runs to its
  end and leaves the resolver as it was: nothing is added to the sink and no member
  changes.
\<close>

theorem callbacks_after_shutdown_are_noops:
  "notify_all rejects ns (ShutdownLocked resolver) = Some (ShutdownLocked resolver)"
  by (rule notify_all_without_client) (simp add: ShutdownLocked_def)

end
